theory Spec2Isabelle
  imports Main "HOL-Library.Word"
begin

section \<open>Scene graph objects (SceneGraph/Object.hpp)\<close>

text \<open>
  An object of the scene graph is addressed by a pointer; the store maps every pointer
  to the object it holds, and the null pointer is \<open>None\<close>.  The fields are those the
  member functions of \<open>Object<Transformation>\<close> read and write:
  \<^item> \<open>parent\<close> and \<open>children\<close>: the intrusive \<open>LinkedList\<close> of children.  \<open>parent()\<close>
    is the list an item is linked in, \<open>firstChild()\<close>/\<open>nextSibling()\<close> enumerate
    \<open>children\<close> front to back;
  \<^item> \<open>features\<close>: the list enumerated by \<open>firstFeature()\<close>/\<open>nextFeature()\<close>;
  \<^item> \<open>transformation\<close>: the value returned by \<open>Transformation::transformation()\<close>;
  \<^item> \<open>flags\<close>: the bit set over \<open>Flag::Dirty\<close>, \<open>Flag::Visited\<close>, \<open>Flag::Joint\<close>;
  \<^item> \<open>counter\<close>: the 16-bit joint index, \<open>0xFFFF\<close> when unused;
  \<^item> \<open>isScene\<close>: the result of the virtual \<open>isScene()\<close>.
\<close>

type_synonym ptr = nat

datatype flag = Dirty | Visited | Joint

text \<open>
  Modelled from the spec: \<open>AbstractFeature\<close> is declared outside the sources at hand.
  Of a feature only the validity of its cached matrices is kept; \<open>markDirty\<close>
  invalidates them.
\<close>

record feature =
  invalidated :: bool

definition markDirty :: "feature \<Rightarrow> feature" where
  "markDirty f = f\<lparr>invalidated := True\<rparr>"

record 't object =
  parent :: "ptr option"
  children :: "ptr list"
  features :: "feature list"
  transformation :: 't
  flags :: "flag set"
  counter :: "16 word"
  isScene :: bool

type_synonym 't store = "ptr \<Rightarrow> 't object"

text \<open>
  Failed assertions.  \<open>CORRADE_ASSERT(cond, message, value)\<close> comes from outside the
  sources at hand; it is modelled as: when \<open>cond\<close> fails the function returns at once,
  handing back \<open>value\<close> (the empty vector), and the store stays as it is at that point.
  \<open>CORRADE_INTERNAL_ASSERT\<close> and an access outside a vector end the run as well.
\<close>

datatype error =
    TooLargeScene   \<comment> \<open>"too large scene"\<close>
  | OnlyForScene    \<comment> \<open>"currently implemented only for Scene"\<close>
  | NotSameTree     \<comment> \<open>"the objects are not part of the same tree"\<close>
  | InternalAssert  \<comment> \<open>a failed \<open>CORRADE_INTERNAL_ASSERT\<close>\<close>
  | OutOfRange      \<comment> \<open>a vector indexed outside its size\<close>

subsection \<open>scene()\<close>

text \<open>\<open>while(p && !p->isScene()) p = p->parent(); return p;\<close>\<close>

partial_function (option) sceneObject :: "'t store \<Rightarrow> ptr option \<Rightarrow> ptr option option" where
  "sceneObject s p =
     (case p of
        None \<Rightarrow> Some None
      | Some q \<Rightarrow> if isScene (s q) then Some p else sceneObject s (parent (s q)))"

subsection \<open>setDirty()\<close>

text \<open>
  The member function and its loop over the children call each other; \<open>SetDirty n\<close>
  is the call \<open>n->setDirty()\<close>, \<open>ForChildren cs\<close> the rest of the loop
  \<open>for(i = firstChild(); i; i = i->nextSibling()) i->setDirty()\<close> with \<open>cs\<close> still
  to do.
\<close>

datatype sd_call = SetDirty ptr | ForChildren "ptr list"

partial_function (option) setDirty_rec :: "'t store \<Rightarrow> sd_call \<Rightarrow> 't store option" where
  "setDirty_rec s c =
     (case c of
        SetDirty n \<Rightarrow>
          if Dirty \<in> flags (s n) then Some s
          else
            Option.bind
              (setDirty_rec (s(n := (s n)\<lparr>features := map markDirty (features (s n))\<rparr>))
                 (ForChildren (children (s n))))
              (\<lambda>s2. Some (s2(n := (s2 n)\<lparr>flags := insert Dirty (flags (s2 n))\<rparr>)))
      | ForChildren cs \<Rightarrow>
          (case cs of
             [] \<Rightarrow> Some s
           | i # rest \<Rightarrow>
               Option.bind (setDirty_rec s (SetDirty i))
                 (\<lambda>s1. setDirty_rec s1 (ForChildren rest))))"

definition setDirty :: "'t store \<Rightarrow> ptr \<Rightarrow> 't store option" where
  "setDirty s n = setDirty_rec s (SetDirty n)"

subsection \<open>setParent()\<close>

text \<open>
  \<open>LinkedList::cut\<close> unlinks an item from the list it is in, \<open>LinkedList::insert\<close>
  links it in at the end.  An item is linked in at most once.
\<close>

definition LinkedList_cut :: "'t store \<Rightarrow> ptr \<Rightarrow> ptr \<Rightarrow> 't store" where
  "LinkedList_cut s l i =
     (let s1 = s(l := (s l)\<lparr>children := removeAll i (children (s l))\<rparr>)
      in s1(i := (s1 i)\<lparr>parent := None\<rparr>))"

definition LinkedList_insert :: "'t store \<Rightarrow> ptr \<Rightarrow> ptr \<Rightarrow> 't store" where
  "LinkedList_insert s l i =
     (let s1 = s(l := (s l)\<lparr>children := children (s l) @ [i]\<rparr>)
      in s1(i := (s1 i)\<lparr>parent := Some l\<rparr>))"

text \<open>
  \<open>while(p) { if(p == this) return this; p = p->parent(); }\<close>: \<open>True\<close> when the loop
  leaves through the \<open>return\<close>.
\<close>

partial_function (option) parentedToChild :: "'t store \<Rightarrow> ptr \<Rightarrow> ptr option \<Rightarrow> bool option" where
  "parentedToChild s this p =
     (case p of
        None \<Rightarrow> Some False
      | Some q \<Rightarrow> if q = this then Some True else parentedToChild s this (parent (s q)))"

definition setParent :: "'t store \<Rightarrow> ptr \<Rightarrow> ptr option \<Rightarrow> 't store option" where
  "setParent s this newParent =
     (if parent (s this) = newParent \<or> isScene (s this) then Some s
      else
        Option.bind (parentedToChild s this newParent)
          (\<lambda>found.
             if found then Some s
             else
               let s1 = (case parent (s this) of
                           None \<Rightarrow> s
                         | Some old \<Rightarrow> LinkedList_cut s old this);
                   s2 = (case newParent of
                           None \<Rightarrow> s1
                         | Some new \<Rightarrow> LinkedList_insert s1 new this)
               in setDirty s2 this))"

subsection \<open>absoluteTransformation()\<close>

partial_function (option) absoluteTransformation ::
    "('t \<Rightarrow> 't \<Rightarrow> 't) \<Rightarrow> 't store \<Rightarrow> ptr \<Rightarrow> 't option" where
  "absoluteTransformation compose s n =
     (case parent (s n) of
        None \<Rightarrow> Some (transformation (s n))
      | Some p \<Rightarrow>
          Option.bind (absoluteTransformation compose s p)
            (\<lambda>a. Some (compose a (transformation (s n)))))"

subsection \<open>transformations()\<close>

text \<open>
  The first loop: \<open>objects[i]\<close> becomes a joint with counter \<open>i\<close> unless its counter
  is taken already.
\<close>

fun markJoints :: "'t store \<Rightarrow> ptr list \<Rightarrow> nat \<Rightarrow> 't store" where
  "markJoints s [] i = s"
| "markJoints s (ob # objects) i =
     (if counter (s ob) \<noteq> 0xFFFF then markJoints s objects (Suc i)
      else markJoints
             (s(ob := (s ob)\<lparr>counter := of_nat i, flags := insert Joint (flags (s ob))\<rparr>))
             objects (Suc i))"

text \<open>
  The second loop, over the work list \<open>objects\<close>.  The iterator \<open>it\<close> starts at
  \<open>objects.begin()\<close>, is never advanced, and \<open>erase\<close> hands back the position of the
  next element: it stays at the head of the list.  An error carries the store as it
  is when the assertion fails.
\<close>

partial_function (option) walk ::
    "ptr \<Rightarrow> 't store \<Rightarrow> ptr list \<Rightarrow> ptr list \<Rightarrow> (error \<times> 't store + 't store \<times> ptr list) option" where
  "walk scene s objects jointObjects =
     (case objects of
        [] \<Rightarrow> Some (Inr (s, jointObjects))
      | it # rest \<Rightarrow>
          if Visited \<in> flags (s it) then walk scene s rest jointObjects
          else
            let s1 = s(it := (s it)\<lparr>flags := insert Visited (flags (s it))\<rparr>) in
            (case parent (s1 it) of
               None \<Rightarrow>
                 if it \<noteq> scene then Some (Inl (NotSameTree, s1))
                 else walk scene s1 rest jointObjects
             | Some p \<Rightarrow>
                 if flags (s1 p) \<inter> {Visited, Joint} \<noteq> {} then
                   (if Joint \<notin> flags (s1 p) then
                      (if \<not> length jointObjects < 0xFFFF then Some (Inl (TooLargeScene, s1))
                       else if counter (s1 p) \<noteq> 0xFFFF then Some (Inl (InternalAssert, s1))
                       else walk scene
                              (s1(p := (s1 p)\<lparr>counter := of_nat (length jointObjects),
                                              flags := insert Joint (flags (s1 p))\<rparr>))
                              rest (jointObjects @ [p]))
                    else walk scene s1 rest jointObjects)
                 else walk scene s1 (p # rest) jointObjects))"

text \<open>
  \<open>computeJointTransformation\<close>: \<open>Enter joint\<close> is the call for the joint with that
  index, \<open>Loop joint ob\<close> an iteration of its \<open>for(;;)\<close> loop with \<open>o = ob\<close>.  The state
  is the store, the vector \<open>jointTransformations\<close> and, as instrumentation of
  \<open>Transformation::compose\<close>, the list of the objects \<open>o\<close> at which it has been called
  so far (every iteration of the loop calls it once).
\<close>

datatype cjt_call = Enter nat | Loop nat ptr

type_synonym 't cjt_state = "'t store \<times> 't list \<times> ptr list"

partial_function (option) cjt_rec ::
    "('t \<Rightarrow> 't \<Rightarrow> 't) \<Rightarrow> 't \<Rightarrow> ptr list \<Rightarrow> 't cjt_state \<Rightarrow> cjt_call
       \<Rightarrow> (error \<times> 't store + 't cjt_state) option" where
  "cjt_rec compose initialTransformation jointObjects st c =
     (case st of (s, jointTransformations, composed) \<Rightarrow>
       (case c of
          Enter joint \<Rightarrow>
            if \<not> (joint < length jointObjects \<and> joint < length jointTransformations)
            then Some (Inl (OutOfRange, s))
            else if Visited \<notin> flags (s (jointObjects ! joint))
            then Some (Inr (s, jointTransformations, composed))
            else cjt_rec compose initialTransformation jointObjects
                   (s, jointTransformations[joint := transformation (s (jointObjects ! joint))],
                    composed)
                   (Loop joint (jointObjects ! joint))
        | Loop joint ob \<Rightarrow>
            if Visited \<notin> flags (s ob) then Some (Inl (InternalAssert, s))
            else
              let s1 = s(ob := (s ob)\<lparr>flags := flags (s ob) - {Visited}\<rparr>) in
              (case parent (s1 ob) of
                 None \<Rightarrow>
                   if \<not> isScene (s1 ob) then Some (Inl (InternalAssert, s1))
                   else Some (Inr (s1,
                          jointTransformations
                            [joint := compose initialTransformation (jointTransformations ! joint)],
                          composed @ [ob]))
               | Some p \<Rightarrow>
                   if Joint \<in> flags (s1 p) then
                     Option.bind
                       (cjt_rec compose initialTransformation jointObjects
                          (s1, jointTransformations, composed) (Enter (unat (counter (s1 p)))))
                       (\<lambda>r. case r of
                          Inl e \<Rightarrow> Some (Inl e)
                        | Inr (s2, jt2, composed2) \<Rightarrow>
                            Some (Inr (s2,
                              jt2[joint := compose (jt2 ! unat (counter (s1 p))) (jt2 ! joint)],
                              composed2 @ [ob])))
                   else
                     cjt_rec compose initialTransformation jointObjects
                       (s1,
                        jointTransformations
                          [joint := compose (transformation (s1 p)) (jointTransformations ! joint)],
                        composed @ [ob])
                       (Loop joint p))))"

definition computeJointTransformation ::
    "('t \<Rightarrow> 't \<Rightarrow> 't) \<Rightarrow> 't \<Rightarrow> ptr list \<Rightarrow> 't cjt_state \<Rightarrow> nat
       \<Rightarrow> (error \<times> 't store + 't cjt_state) option" where
  "computeJointTransformation compose initialTransformation jointObjects st joint =
     cjt_rec compose initialTransformation jointObjects st (Enter joint)"

text \<open>\<open>for(i = 0; i != jointTransformations.size(); ++i) computeJointTransformation(..., i, ...)\<close>\<close>

fun computeJoints ::
    "('t \<Rightarrow> 't \<Rightarrow> 't) \<Rightarrow> 't \<Rightarrow> ptr list \<Rightarrow> 't cjt_state \<Rightarrow> nat list
       \<Rightarrow> (error \<times> 't store + 't cjt_state) option" where
  "computeJoints compose initialTransformation jointObjects st [] = Some (Inr st)"
| "computeJoints compose initialTransformation jointObjects st (i # is) =
     (case computeJointTransformation compose initialTransformation jointObjects st i of
        None \<Rightarrow> None
      | Some (Inl e) \<Rightarrow> Some (Inl e)
      | Some (Inr st') \<Rightarrow> computeJoints compose initialTransformation jointObjects st' is)"

text \<open>
  The loop that copies the transformation of the first occurrence to a later one:
  \<open>if(jointObjects[i]->counter != i) jointTransformations[i] =
  jointTransformations[jointObjects[i]->counter]\<close>.
\<close>

fun copyDuplicates :: "'t store \<Rightarrow> ptr list \<Rightarrow> 't list \<Rightarrow> nat list \<Rightarrow> error + 't list" where
  "copyDuplicates s jointObjects jointTransformations [] = Inr jointTransformations"
| "copyDuplicates s jointObjects jointTransformations (i # is) =
     (if \<not> (i < length jointObjects \<and> i < length jointTransformations) then Inl OutOfRange
      else if unat (counter (s (jointObjects ! i))) \<noteq> i then
        (if \<not> unat (counter (s (jointObjects ! i))) < length jointTransformations
         then Inl OutOfRange
         else copyDuplicates s jointObjects
                (jointTransformations
                   [i := jointTransformations ! unat (counter (s (jointObjects ! i)))])
                is)
      else copyDuplicates s jointObjects jointTransformations is)"

text \<open>
  The last loop.  Its assertion \<open>CORRADE_INTERNAL_ASSERT(i->counter = 0xFFFFu || ...)\<close>
  is an assignment of \<open>true\<close>, i.e. 1, to the counter and so never fails; the counter
  is overwritten two lines later.
\<close>

fun cleanJoints :: "'t store \<Rightarrow> ptr list \<Rightarrow> 't store" where
  "cleanJoints s [] = s"
| "cleanJoints s (i # jointObjects) =
     cleanJoints
       (s(i := (s i)\<lparr>counter := 1, flags := flags (s i) - {Joint}, counter := 0xFFFF\<rparr>))
       jointObjects"

text \<open>
  The member function itself, called on \<open>this\<close>.  \<open>dflt\<close> is the value-initialised
  \<open>Transformation::DataType\<close> the vector \<open>jointTransformations\<close> is filled with.  The
  result is the returned vector, the store and the objects \<open>compose\<close> was called at.
\<close>

definition transformations ::
    "('t \<Rightarrow> 't \<Rightarrow> 't) \<Rightarrow> 't \<Rightarrow> 't store \<Rightarrow> ptr \<Rightarrow> ptr list \<Rightarrow> 't
       \<Rightarrow> (error \<times> 't store + 't list \<times> 't store \<times> ptr list) option" where
  "transformations compose dflt s this objects initialTransformation =
     (if \<not> length objects < 0xFFFF then Some (Inl (TooLargeScene, s))
      else
        let objectCount = length objects;
            s1 = markJoints s objects 0
        in
        Option.bind (sceneObject s1 (Some this))
          (\<lambda>scene.
             if scene \<noteq> Some this then Some (Inl (OnlyForScene, s1))
             else
               Option.bind (walk this s1 objects objects)
                 (\<lambda>w. case w of
                    Inl e \<Rightarrow> Some (Inl e)
                  | Inr (s2, jointObjects) \<Rightarrow>
                      Option.bind
                        (computeJoints compose initialTransformation jointObjects
                           (s2, replicate (length jointObjects) dflt, [])
                           [0..<length jointObjects])
                        (\<lambda>c. case c of
                           Inl e \<Rightarrow> Some (Inl e)
                         | Inr (s3, jointTransformations, composed) \<Rightarrow>
                             (case copyDuplicates s3 jointObjects jointTransformations
                                     [0..<objectCount] of
                                Inl e \<Rightarrow> Some (Inl (e, s3))
                              | Inr jointTransformations' \<Rightarrow>
                                  Some (Inr (take objectCount jointTransformations',
                                             cleanJoints s3 jointObjects, composed)))))))"

declare sceneObject.simps [code] setDirty_rec.simps [code] parentedToChild.simps [code]
  absoluteTransformation.simps [code] walk.simps [code] cjt_rec.simps [code]

section \<open>Vocabulary of the properties\<close>

subsection \<open>Trees\<close>

text \<open>\<open>ascend s k n\<close> is the object reached from \<open>n\<close> by following \<open>parent()\<close> \<open>k\<close> times.\<close>

fun ascend :: "'t store \<Rightarrow> nat \<Rightarrow> ptr \<Rightarrow> ptr option" where
  "ascend s 0 n = Some n"
| "ascend s (Suc k) n = (case parent (s n) of None \<Rightarrow> None | Some p \<Rightarrow> ascend s k p)"

text \<open>
  \<open>tree_upto k s n\<close>: following the lists of children from \<open>n\<close> ends after fewer than
  \<open>k\<close> steps on every path, so the children below \<open>n\<close> form a finite graph without a
  cycle.
\<close>

fun tree_upto :: "nat \<Rightarrow> 't store \<Rightarrow> ptr \<Rightarrow> bool" where
  "tree_upto 0 s n = False"
| "tree_upto (Suc k) s n = list_all (tree_upto k s) (children (s n))"

text \<open>\<open>subtree s n\<close>: \<open>n\<close> and everything reached from it through lists of children.\<close>

inductive_set subtree :: "'t store \<Rightarrow> ptr \<Rightarrow> ptr set" for s :: "'t store" and n :: ptr where
  self: "n \<in> subtree s n"
| child: "m \<in> subtree s n \<Longrightarrow> c \<in> set (children (s m)) \<Longrightarrow> c \<in> subtree s n"

text \<open>
  The two views of the intrusive list agree: an object in the list of children of \<open>p\<close>
  has \<open>p\<close> as its \<open>parent()\<close>.
\<close>

definition linked :: "'t store \<Rightarrow> bool" where
  "linked s \<longleftrightarrow> (\<forall>p c. c \<in> set (children (s p)) \<longrightarrow> parent (s c) = Some p)"

text \<open>
  \<open>ancestor_or_self s a n\<close>: \<open>a\<close> is \<open>n\<close> or is reached from \<open>n\<close> through parents, i.e.
  \<open>n\<close> is \<open>a\<close> or a descendant of \<open>a\<close>.  \<open>rooted s n\<close>: the chain of parents of \<open>n\<close> ends.
\<close>

definition ancestor_or_self :: "'t store \<Rightarrow> ptr \<Rightarrow> ptr \<Rightarrow> bool" where
  "ancestor_or_self s a n \<longleftrightarrow> (\<exists>k. ascend s k n = Some a)"

definition rooted :: "'t store \<Rightarrow> ptr \<Rightarrow> bool" where
  "rooted s n \<longleftrightarrow> (\<exists>k r. ascend s k n = Some r \<and> parent (s r) = None)"

subsection \<open>Dirty marks\<close>

text \<open>
  \<open>only_dirtied s s'\<close>: from \<open>s\<close> to \<open>s'\<close> no object has changed but in its \<open>Dirty\<close>
  flag, which is at most set, and in its features, which are at most invalidated.
\<close>

definition only_dirtied :: "'t store \<Rightarrow> 't store \<Rightarrow> bool" where
  "only_dirtied s s' \<longleftrightarrow>
     (\<forall>m. parent (s' m) = parent (s m) \<and> children (s' m) = children (s m) \<and>
          transformation (s' m) = transformation (s m) \<and> counter (s' m) = counter (s m) \<and>
          isScene (s' m) = isScene (s m) \<and>
          flags (s' m) - {Dirty} = flags (s m) - {Dirty} \<and> flags (s m) \<subseteq> flags (s' m) \<and>
          (features (s' m) = features (s m) \<or> features (s' m) = map markDirty (features (s m))))"

text \<open>The objects a call of \<open>setDirty_rec\<close> may reach.\<close>

fun sd_region :: "'t store \<Rightarrow> sd_call \<Rightarrow> ptr set" where
  "sd_region s (SetDirty n) = subtree s n"
| "sd_region s (ForChildren cs) = (\<Union>c\<in>set cs. subtree s c)"

text \<open>
  The propagation closure of the dirty flag (invariant I4), on the objects below \<open>n\<close>:
  a dirty object has only dirty children.
\<close>

definition dirty_descends :: "'t store \<Rightarrow> ptr \<Rightarrow> bool" where
  "dirty_descends s n \<longleftrightarrow>
     (\<forall>p\<in>subtree s n. Dirty \<in> flags (s p) \<longrightarrow> (\<forall>c\<in>set (children (s p)). Dirty \<in> flags (s c)))"

text \<open>
  No object below \<open>n\<close> is dirty and yet holds a feature with a valid cache.  This is
  not part of I4: it is what the early return of \<open>setDirty\<close> relies on.
\<close>

definition dirty_features_invalid :: "'t store \<Rightarrow> ptr \<Rightarrow> bool" where
  "dirty_features_invalid s n \<longleftrightarrow>
     (\<forall>p\<in>subtree s n. Dirty \<in> flags (s p) \<longrightarrow> (\<forall>f\<in>set (features (s p)). invalidated f))"

text \<open>
  Both together, on a set \<open>X\<close> of objects and for a property \<open>F\<close> of the features of
  a dirty object (\<open>invalidated\<close>, or nothing at all).
\<close>

definition dirty_closed_on :: "(feature \<Rightarrow> bool) \<Rightarrow> ptr set \<Rightarrow> 't store \<Rightarrow> bool" where
  "dirty_closed_on F X s \<longleftrightarrow>
     (\<forall>p\<in>X. Dirty \<in> flags (s p) \<longrightarrow>
        (\<forall>f\<in>set (features (s p)). F f) \<and>
        (\<forall>c\<in>set (children (s p)). Dirty \<in> flags (s c)))"

definition dirty_closed :: "'t store \<Rightarrow> ptr \<Rightarrow> bool" where
  "dirty_closed s n = dirty_closed_on invalidated (subtree s n) s"

subsection \<open>Reparenting\<close>

text \<open>
  The three cases in which \<open>setParent\<close> returns \<open>this\<close> untouched: the new parent is
  the parent already, \<open>this\<close> is a scene, or the new parent is \<open>this\<close> or one of its
  descendants.  \<open>relink\<close> is the store after \<open>cut\<close> and \<open>insert\<close>, before \<open>setDirty\<close>.
\<close>

definition setParent_skips :: "'t store \<Rightarrow> ptr \<Rightarrow> ptr option \<Rightarrow> bool" where
  "setParent_skips s this newParent \<longleftrightarrow>
     parent (s this) = newParent \<or> isScene (s this) \<or>
     (\<exists>p. newParent = Some p \<and> ancestor_or_self s this p)"

definition relink :: "'t store \<Rightarrow> ptr \<Rightarrow> ptr option \<Rightarrow> 't store" where
  "relink s this newParent =
     (let s1 = (case parent (s this) of None \<Rightarrow> s | Some old \<Rightarrow> LinkedList_cut s old this)
      in case newParent of None \<Rightarrow> s1 | Some new \<Rightarrow> LinkedList_insert s1 new this)"

subsection \<open>The batch query\<close>

text \<open>
  No transient mark is set: the state every query is meant to start from and to leave
  behind.
\<close>

definition unmarked :: "'t store \<Rightarrow> bool" where
  "unmarked s \<longleftrightarrow>
     (\<forall>n. Visited \<notin> flags (s n) \<and> Joint \<notin> flags (s n) \<and> counter (s n) = 0xFFFF)"

text \<open>
  \<open>paths_up s T\<close>: the objects of \<open>T\<close> and all their ancestors, i.e. the union of the
  paths from the targets to the root.
\<close>

definition paths_up :: "'t store \<Rightarrow> ptr set \<Rightarrow> ptr set" where
  "paths_up s T = {v. \<exists>t\<in>T. ancestor_or_self s v t}"

text \<open>The position of the first occurrence of an object in the list of targets.\<close>

fun first_index :: "ptr list \<Rightarrow> ptr \<Rightarrow> nat" where
  "first_index [] x = 0"
| "first_index (y # ys) x = (if x = y then 0 else Suc (first_index ys x))"

text \<open>
  Every joint's counter is its own position in \<open>jointObjects\<close>, and only joints have
  a counter.
\<close>

definition indexed :: "'t store \<Rightarrow> ptr list \<Rightarrow> bool" where
  "indexed s js \<longleftrightarrow>
     (\<forall>n. Joint \<in> flags (s n) \<longrightarrow>
          unat (counter (s n)) < length js \<and> js ! unat (counter (s n)) = n) \<and>
     (\<forall>n. counter (s n) \<noteq> 0xFFFF \<longrightarrow> Joint \<in> flags (s n))"

text \<open>The three updates the solver makes to one object.\<close>

abbreviation visit :: "'t store \<Rightarrow> ptr \<Rightarrow> 't store" where
  "visit s it \<equiv> s(it := (s it)\<lparr>flags := insert Visited (flags (s it))\<rparr>)"

abbreviation promote :: "'t store \<Rightarrow> ptr \<Rightarrow> nat \<Rightarrow> 't store" where
  "promote s p k \<equiv> s(p := (s p)\<lparr>counter := of_nat k, flags := insert Joint (flags (s p))\<rparr>)"

abbreviation unvisit :: "'t store \<Rightarrow> ptr \<Rightarrow> 't store" where
  "unvisit s ob \<equiv> s(ob := (s ob)\<lparr>flags := flags (s ob) - {Visited}\<rparr>)"

subsection \<open>Invariants of the batch query\<close>

text \<open>
  The second loop changes nothing but the marks, which it only adds, and the counters
  of the objects it turns into joints.
\<close>

definition marks_added :: "'t store \<Rightarrow> 't store \<Rightarrow> bool" where
  "marks_added s0 s \<longleftrightarrow>
     (\<forall>n. parent (s n) = parent (s0 n) \<and> children (s n) = children (s0 n) \<and>
          features (s n) = features (s0 n) \<and> transformation (s n) = transformation (s0 n) \<and>
          isScene (s n) = isScene (s0 n) \<and>
          flags (s n) - {Visited, Joint} = flags (s0 n) - {Visited, Joint} \<and>
          flags (s0 n) \<subseteq> flags (s n) \<and>
          (Joint \<in> flags (s0 n) \<longrightarrow> counter (s n) = counter (s0 n)))"

text \<open>
  Every visited object is a joint or is reached from a joint below it through
  visited objects.
\<close>

inductive covered :: "'t store \<Rightarrow> ptr \<Rightarrow> bool" for s :: "'t store" where
  joint: "Joint \<in> flags (s v) \<Longrightarrow> covered s v"
| above: "covered s c \<Longrightarrow> Visited \<in> flags (s c) \<Longrightarrow> parent (s c) = Some v \<Longrightarrow> covered s v"

definition all_covered :: "'t store \<Rightarrow> ptr list \<Rightarrow> bool" where
  "all_covered s objs \<longleftrightarrow>
     (\<forall>v. Visited \<in> flags (s v) \<longrightarrow> covered s v) \<and> (\<forall>ob\<in>set objs. covered s ob)"

text \<open>
  The visited objects lie on the paths from the targets to the root; the parent of a
  visited object is visited or still to do; an unvisited joint is still to do.
\<close>

definition walk_paths :: "'t store \<Rightarrow> ptr set \<Rightarrow> 't store \<Rightarrow> ptr list \<Rightarrow> bool" where
  "walk_paths s0 T s objs \<longleftrightarrow>
     (\<forall>n. parent (s n) = parent (s0 n)) \<and>
     finite {v. Visited \<in> flags (s v)} \<and>
     (\<forall>v. Visited \<in> flags (s v) \<longrightarrow> v \<in> paths_up s0 T) \<and>
     set objs \<subseteq> paths_up s0 T \<and>
     (\<forall>c v. Visited \<in> flags (s c) \<and> parent (s c) = Some v \<longrightarrow> Visited \<in> flags (s v) \<or> v \<in> set objs) \<and>
     (\<forall>n. Joint \<in> flags (s n) \<and> Visited \<notin> flags (s n) \<longrightarrow> n \<in> set objs) \<and>
     (\<forall>t\<in>T. Joint \<in> flags (s t))"

text \<open>
  \<open>computeJointTransformation\<close> only takes \<open>Visited\<close> marks away, records each object
  it takes the mark from once, and, when it has taken the mark from an object below
  a parent that is no joint, takes it from the parent as well (\<open>ex\<close> is the object
  the loop is about to handle).
\<close>

definition unvisited_only :: "'t store \<Rightarrow> 't store \<Rightarrow> bool" where
  "unvisited_only s s' \<longleftrightarrow>
     (\<forall>x. s' x = s x \<or> (Visited \<in> flags (s x) \<and> s' x = (s x)\<lparr>flags := flags (s x) - {Visited}\<rparr>))"

definition logged :: "'t store \<Rightarrow> 't store \<Rightarrow> ptr list \<Rightarrow> ptr list \<Rightarrow> bool" where
  "logged s s' lg lg' \<longleftrightarrow>
     (\<exists>new. lg' = lg @ new \<and> distinct new \<and>
        set new = {x. Visited \<in> flags (s x) \<and> Visited \<notin> flags (s' x)})"

definition closed_up :: "ptr set \<Rightarrow> ptr option \<Rightarrow> 't store \<Rightarrow> bool" where
  "closed_up V0 ex s \<longleftrightarrow>
     (\<forall>c v. parent (s c) = Some v \<and> Joint \<notin> flags (s v) \<and> c \<in> V0 \<and> Visited \<notin> flags (s c)
        \<longrightarrow> Visited \<notin> flags (s v) \<or> ex = Some v)"

definition cjt_post :: "ptr set \<Rightarrow> ptr list \<Rightarrow> 't cjt_state \<Rightarrow> cjt_call \<Rightarrow> 't cjt_state \<Rightarrow> bool" where
  "cjt_post V0 js st c st' \<longleftrightarrow>
     (case st of (s, jt, lg) \<Rightarrow> case st' of (s', jt', lg') \<Rightarrow>
        unvisited_only s s' \<and> length jt' = length jt \<and> logged s s' lg lg' \<and>
        Visited \<notin> flags (s' (case c of Enter j \<Rightarrow> js ! j | Loop j ob \<Rightarrow> ob)) \<and>
        ({x. Visited \<in> flags (s x)} \<subseteq> V0 \<and>
         closed_up V0 (case c of Enter j \<Rightarrow> None | Loop j ob \<Rightarrow> Some ob) s
           \<longrightarrow> closed_up V0 None s'))"

text \<open>
  What makes the second and the third loop run through.  An object that is no joint
  has at most one visited child; in the work list every object but the first is a
  joint, and so is every joint object.
\<close>

definition single_child :: "'t store \<Rightarrow> bool" where
  "single_child s \<longleftrightarrow>
     (\<forall>c c' p. Visited \<in> flags (s c) \<and> Visited \<in> flags (s c') \<and> parent (s c) = Some p \<and>
        parent (s c') = Some p \<and> Joint \<notin> flags (s p) \<longrightarrow> c = c')"

definition walk_joints :: "'t store \<Rightarrow> ptr list \<Rightarrow> ptr list \<Rightarrow> bool" where
  "walk_joints s objs js \<longleftrightarrow>
     (\<forall>x\<in>set (tl objs). Joint \<in> flags (s x)) \<and> (\<forall>x\<in>set js. Joint \<in> flags (s x)) \<and>
     single_child s"

text \<open>
  The state in which \<open>computeJointTransformation\<close> can be called: finitely many
  objects are visited, each of them below the scene; the counter of a joint is an
  index into \<open>jointObjects\<close>, which holds joints only; the parent of a visited object
  is visited too unless it is a joint.
\<close>

definition cjt_ready :: "ptr \<Rightarrow> ptr list \<Rightarrow> 't store \<Rightarrow> bool" where
  "cjt_ready scene js s \<longleftrightarrow>
     finite {v. Visited \<in> flags (s v)} \<and>
     (\<forall>n. Joint \<in> flags (s n) \<longrightarrow> unat (counter (s n)) < length js) \<and>
     (\<forall>i<length js. Joint \<in> flags (s (js ! i))) \<and>
     (\<forall>v. Visited \<in> flags (s v) \<longrightarrow> (\<exists>k. ascend s k v = Some scene)) \<and>
     parent (s scene) = None \<and> isScene (s scene) \<and>
     (\<forall>c p. Visited \<in> flags (s c) \<and> parent (s c) = Some p \<and> Joint \<notin> flags (s p)
        \<longrightarrow> Visited \<in> flags (s p)) \<and>
     single_child s"

text \<open>
  A path of parents from an object to a root, the value the loop of
  \<open>computeJointTransformation\<close> composes along it and the value
  \<open>absoluteTransformation\<close> composes along it.
\<close>

fun is_path :: "'t store \<Rightarrow> ptr list \<Rightarrow> bool" where
  "is_path s [] = False"
| "is_path s [r] = (parent (s r) = None)"
| "is_path s (x # y # rest) = (parent (s x) = Some y \<and> is_path s (y # rest))"

fun compose_up :: "('t \<Rightarrow> 't \<Rightarrow> 't) \<Rightarrow> 't \<Rightarrow> 't store \<Rightarrow> ptr list \<Rightarrow> 't \<Rightarrow> 't" where
  "compose_up compose initial s [] a = compose initial a"
| "compose_up compose initial s (p # rest) a =
     compose_up compose initial s rest (compose (transformation (s p)) a)"

fun abs_from :: "('t \<Rightarrow> 't \<Rightarrow> 't) \<Rightarrow> 't store \<Rightarrow> ptr \<Rightarrow> ptr list \<Rightarrow> 't" where
  "abs_from compose s x [] = transformation (s x)"
| "abs_from compose s x (y # rest) = compose (abs_from compose s y rest) (transformation (s x))"

definition visited_on :: "ptr set \<Rightarrow> 't store \<Rightarrow> 't store" where
  "visited_on P s = (\<lambda>x. if x \<in> P then (s x)\<lparr>flags := insert Visited (flags (s x))\<rparr> else s x)"

definition unvisited_on :: "ptr set \<Rightarrow> 't store \<Rightarrow> 't store" where
  "unvisited_on P s = (\<lambda>x. if x \<in> P then (s x)\<lparr>flags := flags (s x) - {Visited}\<rparr> else s x)"

subsection \<open>Small scenes\<close>

text \<open>
  Scene 0 with the child 1, which has the children 2 and 3; 3 is dirty already.
  Transformations are lists under concatenation, each object carrying its own
  address, so a composed transformation spells out the path it was composed along.
  Every other address holds a detached object.
\<close>

definition blank :: "nat list object" where
  "blank = \<lparr>parent = None, children = [], features = [], transformation = [],
            flags = {}, counter = 0xFFFF, isScene = False\<rparr>"

definition example :: "nat list store" where
  "example = (\<lambda>_. blank)
     (0 := blank\<lparr>children := [1], transformation := [0], isScene := True\<rparr>,
      1 := blank\<lparr>parent := Some 0, children := [2, 3],
                 features := [\<lparr>invalidated = False\<rparr>], transformation := [1]\<rparr>,
      2 := blank\<lparr>parent := Some 1, features := [\<lparr>invalidated = False\<rparr>],
                 transformation := [2]\<rparr>,
      3 := blank\<lparr>parent := Some 1, transformation := [3], flags := {Dirty}\<rparr>)"

text \<open>
  The same scene again, but the dirty object 3 holds a feature whose cache is valid;
  and with object 1 dirty above its clean child 2.
\<close>

definition example_stale :: "nat list store" where
  "example_stale = example(3 := (example 3)\<lparr>features := [\<lparr>invalidated = False\<rparr>]\<rparr>)"

definition example_top :: "nat list store" where
  "example_top = example(1 := (example 1)\<lparr>flags := {Dirty}\<rparr>)"

text \<open>The same scene with a second child 5 of the scene, for the batch query.\<close>

definition example2 :: "nat list store" where
  "example2 = (\<lambda>_. blank)
     (0 := blank\<lparr>children := [1, 5], transformation := [0], isScene := True\<rparr>,
      1 := blank\<lparr>parent := Some 0, children := [2, 3],
                 features := [\<lparr>invalidated = False\<rparr>], transformation := [1]\<rparr>,
      2 := blank\<lparr>parent := Some 1, features := [\<lparr>invalidated = False\<rparr>],
                 transformation := [2]\<rparr>,
      3 := blank\<lparr>parent := Some 1, transformation := [3], flags := {Dirty}\<rparr>,
      5 := blank\<lparr>parent := Some 0, transformation := [5]\<rparr>)"

section \<open>Dirty propagation and reparenting\<close>

lemma markDirty_idem: "markDirty (markDirty f) = markDirty f"
  by (simp add: markDirty_def)

lemma only_dirtied_refl: "only_dirtied s s"
  by (simp add: only_dirtied_def)

lemma only_dirtied_trans: "only_dirtied s s1 \<Longrightarrow> only_dirtied s1 s2 \<Longrightarrow> only_dirtied s s2"
  unfolding only_dirtied_def
  apply (intro allI)
  subgoal for m
    apply (erule_tac x=m in allE)+
    apply (auto simp: markDirty_idem)
    done
  done

lemma subtree_cong:
  assumes "\<And>m. children (s' m) = children (s m)"
  shows "subtree s' n = subtree s n"
proof -
  have "x \<in> subtree s n" if "x \<in> subtree s' n" for x
    using that by (induction rule: subtree.induct) (auto intro: subtree.intros simp: assms)
  moreover have "x \<in> subtree s' n" if "x \<in> subtree s n" for x
    using that
  proof (induction rule: subtree.induct)
    case self show ?case by (rule subtree.self)
  next
    case (child m c)
    then show ?case using assms[of m] by (auto intro: subtree.child)
  qed
  ultimately show ?thesis by blast
qed

lemma subtree_trans: "m \<in> subtree s n \<Longrightarrow> x \<in> subtree s m \<Longrightarrow> x \<in> subtree s n"
  proof -
  assume a: "m \<in> subtree s n"
  assume "x \<in> subtree s m"
  then show "x \<in> subtree s n"
    by (induction rule: subtree.induct) (auto intro: a subtree.intros)
qed

lemma subtree_child_sub: "c \<in> set (children (s n)) \<Longrightarrow> subtree s c \<subseteq> subtree s n"
  by (meson subsetI subtree.child subtree.self subtree_trans)

lemma only_dirtied_mark:
  "only_dirtied s (s(n := (s n)\<lparr>features := map markDirty (features (s n))\<rparr>))"
  by (simp add: only_dirtied_def)

lemma only_dirtied_flag:
  "only_dirtied s (s(n := (s n)\<lparr>flags := insert Dirty (flags (s n))\<rparr>))"
  by (auto simp add: only_dirtied_def)

lemma setDirty_rec_frame:
  assumes "setDirty_rec s c = Some s'"
  shows "only_dirtied s s' \<and> (\<forall>m. m \<notin> sd_region s c \<longrightarrow> s' m = s m)"
proof (rule setDirty_rec.raw_induct
    [where P = "\<lambda>s c s'. only_dirtied s s' \<and> (\<forall>m. m \<notin> sd_region s c \<longrightarrow> s' m = s m)",
     OF _ assms], goal_cases)
  case (1 rec s c s')
  show ?case
  proof (cases c)
    case (SetDirty n)
    show ?thesis
    proof (cases "Dirty \<in> flags (s n)")
      case True
      with 1(2) SetDirty show ?thesis by (simp add: only_dirtied_refl)
    next
      case False
      let ?s1 = "s(n := (s n)\<lparr>features := map markDirty (features (s n))\<rparr>)"
      from 1(2) SetDirty False obtain s2 where
        r: "rec ?s1 (ForChildren (children (s n))) = Some s2"
        and s': "s' = s2(n := (s2 n)\<lparr>flags := insert Dirty (flags (s2 n))\<rparr>)"
        by (auto simp: bind_eq_Some_conv)
      from 1(1)[OF r] have od: "only_dirtied ?s1 s2"
        and fr: "\<And>m. m \<notin> sd_region ?s1 (ForChildren (children (s n))) \<Longrightarrow> s2 m = ?s1 m"
        by auto
      have st: "subtree ?s1 x = subtree s x" for x
        by (rule subtree_cong) simp
      have "only_dirtied s s'"
        unfolding s'
        by (rule only_dirtied_trans[OF only_dirtied_trans[OF only_dirtied_mark od] only_dirtied_flag])
      moreover have "s' m = s m" if "m \<notin> subtree s n" for m
      proof -
        have mn: "m \<noteq> n" using that subtree.self by metis
        have "m \<notin> sd_region ?s1 (ForChildren (children (s n)))"
          using that subtree_child_sub[of _ s n] by (auto simp: st)
        from fr[OF this] mn show ?thesis by (simp add: s')
      qed
      ultimately show ?thesis using SetDirty by simp
    qed
  next
    case (ForChildren cs)
    show ?thesis
    proof (cases cs)
      case Nil
      with 1(2) ForChildren show ?thesis by (simp add: only_dirtied_refl)
    next
      case (Cons i rest)
      from 1(2) ForChildren Cons obtain s1 where
        r1: "rec s (SetDirty i) = Some s1" and r2: "rec s1 (ForChildren rest) = Some s'"
        by (auto simp: bind_eq_Some_conv)
      from 1(1)[OF r1] have od1: "only_dirtied s s1"
        and fr1: "\<And>m. m \<notin> subtree s i \<Longrightarrow> s1 m = s m" by auto
      from 1(1)[OF r2] have od2: "only_dirtied s1 s'"
        and fr2: "\<And>m. m \<notin> (\<Union>c\<in>set rest. subtree s1 c) \<Longrightarrow> s' m = s1 m" by auto
      have st: "subtree s1 x = subtree s x" for x
        by (rule subtree_cong) (use od1 in \<open>simp add: only_dirtied_def\<close>)
      have "only_dirtied s s'" by (rule only_dirtied_trans[OF od1 od2])
      moreover have "s' m = s m" if "m \<notin> sd_region s c" for m
        using that fr1[of m] fr2[of m] ForChildren Cons by (auto simp: st)
      ultimately show ?thesis by simp
    qed
  qed
qed

lemma tree_upto_cong:
  "(\<And>m. children (s' m) = children (s m)) \<Longrightarrow> tree_upto k s' n = tree_upto k s n"
  by (induction k arbitrary: n) (simp_all add: list_all_iff)

lemma only_dirtied_tree_upto: "only_dirtied s s' \<Longrightarrow> tree_upto k s' n = tree_upto k s n"
  by (rule tree_upto_cong) (simp add: only_dirtied_def)

lemma only_dirtied_children: "only_dirtied s s' \<Longrightarrow> children (s' m) = children (s m)"
  by (simp add: only_dirtied_def)

lemma only_dirtied_Dirty: "only_dirtied s s' \<Longrightarrow> Dirty \<in> flags (s m) \<Longrightarrow> Dirty \<in> flags (s' m)"
  by (auto simp add: only_dirtied_def)

lemma only_dirtied_features:
  "only_dirtied s s' \<Longrightarrow> \<forall>f. F (markDirty f) \<Longrightarrow> \<forall>f\<in>set (features (s m)). F f
     \<Longrightarrow> \<forall>f\<in>set (features (s' m)). F f"
  unfolding only_dirtied_def
  by (erule_tac x=m in allE) auto

lemma setDirty_rec_SetDirty_total:
  "tree_upto k (s :: 't store) n \<Longrightarrow> dirty_closed_on F X s \<Longrightarrow> \<forall>f. F (markDirty f) \<Longrightarrow>
     \<exists>s'. setDirty_rec s (SetDirty n) = Some s' \<and> dirty_closed_on F X s' \<and> Dirty \<in> flags (s' n)"
proof (induction k arbitrary: s n)
  case 0
  then show ?case by simp
next
  case (Suc k)
  show ?case
  proof (cases "Dirty \<in> flags (s n)")
    case True
    then show ?thesis using Suc.prems by (subst setDirty_rec.simps) simp
  next
    case False
    define s1 where "s1 = s(n := (s n)\<lparr>features := map markDirty (features (s n))\<rparr>)"
    have od1: "only_dirtied s s1" unfolding s1_def by (rule only_dirtied_mark)
    have loop: "dirty_closed_on F X t \<Longrightarrow> \<forall>c\<in>set cs. tree_upto k t c \<Longrightarrow>
        \<exists>t'. setDirty_rec t (ForChildren cs) = Some t' \<and> dirty_closed_on F X t' \<and> only_dirtied t t'
           \<and> (\<forall>c\<in>set cs. Dirty \<in> flags (t' c))" for cs and t :: "'t store"
    proof (induction cs arbitrary: t)
      case Nil
      then show ?case by (subst setDirty_rec.simps) (simp add: only_dirtied_refl)
    next
      case (Cons c cs)
      from Suc.IH[of t c] Cons.prems Suc.prems(3) obtain t1 where
        t1: "setDirty_rec t (SetDirty c) = Some t1" "dirty_closed_on F X t1" "Dirty \<in> flags (t1 c)"
        by auto
      have od: "only_dirtied t t1" using setDirty_rec_frame[OF t1(1)] by simp
      have "\<forall>c\<in>set cs. tree_upto k t1 c"
        using Cons.prems(2) by (simp add: only_dirtied_tree_upto[OF od])
      from Cons.IH[OF t1(2) this] obtain t' where
        t': "setDirty_rec t1 (ForChildren cs) = Some t'" "dirty_closed_on F X t'" "only_dirtied t1 t'"
          "\<forall>c\<in>set cs. Dirty \<in> flags (t' c)" by auto
      have "setDirty_rec t (ForChildren (c # cs)) = Some t'"
        by (subst setDirty_rec.simps) (simp add: t1(1) t'(1))
      moreover have "Dirty \<in> flags (t' c)" by (rule only_dirtied_Dirty[OF t'(3) t1(3)])
      ultimately show ?case using t' only_dirtied_trans[OF od t'(3)] by auto
    qed
    have q1: "dirty_closed_on F X s1"
      using Suc.prems(2) False unfolding dirty_closed_on_def s1_def by auto
    have "\<forall>c\<in>set (children (s n)). tree_upto k s1 c"
      using Suc.prems(1) by (auto simp: only_dirtied_tree_upto[OF od1] list_all_iff)
    from loop[OF q1 this] obtain s2 where
      s2: "setDirty_rec s1 (ForChildren (children (s n))) = Some s2" "dirty_closed_on F X s2"
        "only_dirtied s1 s2" "\<forall>c\<in>set (children (s n)). Dirty \<in> flags (s2 c)" by auto
    define s' where "s' = s2(n := (s2 n)\<lparr>flags := insert Dirty (flags (s2 n))\<rparr>)"
    have run: "setDirty_rec s (SetDirty n) = Some s'"
      by (subst setDirty_rec.simps) (simp add: False s2(1)[unfolded s1_def] s'_def)
    have inv1: "\<forall>f\<in>set (features (s1 n)). F f"
      using Suc.prems(3) by (simp add: s1_def)
    have invn: "\<forall>f\<in>set (features (s2 n)). F f"
      by (rule only_dirtied_features[OF s2(3) Suc.prems(3) inv1])
    have chn: "children (s2 n) = children (s n)"
      using only_dirtied_children[OF s2(3)] by (simp add: s1_def)
    have "dirty_closed_on F X s'"
      unfolding dirty_closed_on_def
    proof (intro ballI impI)
      fix p assume p: "p \<in> X" "Dirty \<in> flags (s' p)"
      show "(\<forall>f\<in>set (features (s' p)). F f) \<and>
            (\<forall>c\<in>set (children (s' p)). Dirty \<in> flags (s' c))"
      proof (cases "p = n")
        case True
        then show ?thesis using invn chn s2(4) by (auto simp: s'_def)
      next
        case False
        with p have "Dirty \<in> flags (s2 p)" by (simp add: s'_def)
        with s2(2) p(1) have "(\<forall>f\<in>set (features (s2 p)). F f) \<and>
            (\<forall>c\<in>set (children (s2 p)). Dirty \<in> flags (s2 c))"
          unfolding dirty_closed_on_def by blast
        then show ?thesis using False by (auto simp: s'_def)
      qed
    qed
    then show ?thesis using run by (auto simp: s'_def)
  qed
qed

lemma parentedToChild_None: "parentedToChild s this None = Some False"
  by (subst parentedToChild.simps) simp

lemma parentedToChild_found:
  "ascend s k p = Some this \<Longrightarrow> parentedToChild s this (Some p) = Some True"
proof (induction k arbitrary: p)
  case 0
  then show ?case by (subst parentedToChild.simps) simp
next
  case (Suc k)
  show ?case
  proof (cases "p = this")
    case True
    then show ?thesis by (subst parentedToChild.simps) simp
  next
    case False
    from Suc.prems obtain q where q: "parent (s p) = Some q" "ascend s k q = Some this"
      by (auto split: option.splits)
    show ?thesis
      by (subst parentedToChild.simps) (simp add: False q(1) Suc.IH[OF q(2)])
  qed
qed

lemma parentedToChild_not_found:
  "ascend s k p = Some r \<Longrightarrow> parent (s r) = None \<Longrightarrow> \<forall>j. ascend s j p \<noteq> Some this
     \<Longrightarrow> parentedToChild s this (Some p) = Some False"
proof (induction k arbitrary: p)
  case 0
  from 0(3)[rule_format, of 0] have "p \<noteq> this" by simp
  with 0 show ?case
    by (subst parentedToChild.simps) (simp add: parentedToChild_None)
next
  case (Suc k)
  from Suc.prems(3)[rule_format, of 0] have ne: "p \<noteq> this" by simp
  from Suc.prems(1) obtain q where q: "parent (s p) = Some q" "ascend s k q = Some r"
    by (auto split: option.splits)
  have "\<forall>j. ascend s j q \<noteq> Some this"
  proof
    fix j show "ascend s j q \<noteq> Some this"
      using Suc.prems(3)[rule_format, of "Suc j"] q(1) by simp
  qed
  from Suc.IH[OF q(2) Suc.prems(2) this] show ?case
    by (subst parentedToChild.simps) (simp add: ne q(1))
qed

lemma linked_subtree_ascend:
  assumes "linked s" "m \<in> subtree s n"
  shows "\<exists>k. ascend s k m = Some n"
  using assms(2)
proof (induction rule: subtree.induct)
  case self
  have "ascend s 0 n = Some n" by simp
  then show ?case by blast
next
  case (child m c)
  then obtain k where "ascend s k m = Some n" by blast
  moreover have "parent (s c) = Some m" using assms(1) child.hyps(2) by (simp add: linked_def)
  ultimately have "ascend s (Suc k) c = Some n" by simp
  then show ?case by blast
qed

lemma tree_upto_Suc: "tree_upto k s n \<Longrightarrow> tree_upto (Suc k) s n"
  by (induction k arbitrary: n) (auto simp: list_all_iff)

lemma tree_upto_no_self_child: "tree_upto k s n \<Longrightarrow> n \<notin> set (children (s n))"
  by (induction k) (auto simp: list_all_iff)

lemma subtree_cases:
  "m \<in> subtree s n \<Longrightarrow> m = n \<or> (\<exists>c\<in>set (children (s n)). m \<in> subtree s c)"
  by (induction rule: subtree.induct) (auto intro: subtree.intros)

lemma tree_upto_acyclic:
  "tree_upto k s n \<Longrightarrow> m \<in> subtree s n \<Longrightarrow> n \<notin> set (children (s m))"
proof (induction k arbitrary: n m)
  case 0
  then show ?case by simp
next
  case (Suc k)
  show ?case
  proof
    assume nm: "n \<in> set (children (s m))"
    from subtree_cases[OF Suc.prems(2)] show False
    proof
      assume "m = n"
      with nm Suc.prems(1) show False using tree_upto_no_self_child by blast
    next
      assume "\<exists>c\<in>set (children (s n)). m \<in> subtree s c"
      then obtain c where c: "c \<in> set (children (s n))" "m \<in> subtree s c" by blast
      from c(1) Suc.prems(1) have "tree_upto k s c" by (simp add: list_all_iff)
      moreover from c(2) nm have "n \<in> subtree s c" by (rule subtree.child)
      ultimately have "c \<notin> set (children (s n))" by (rule Suc.IH)
      with c(1) show False by simp
    qed
  qed
qed

lemma subtree_cong_local:
  assumes "\<forall>m\<in>subtree s n. children (s' m) = children (s m)"
  shows "subtree s' n = subtree s n"
proof -
  have "x \<in> subtree s n" if "x \<in> subtree s' n" for x
    using that
  proof (induction rule: subtree.induct)
    case self show ?case by (rule subtree.self)
  next
    case (child m c)
    then show ?case using assms by (auto intro: subtree.child)
  qed
  moreover have "x \<in> subtree s' n" if "x \<in> subtree s n" for x
    using that
  proof (induction rule: subtree.induct)
    case self show ?case by (rule subtree.self)
  next
    case (child m c)
    then show ?case using assms by (auto intro: subtree.child)
  qed
  ultimately show ?thesis by blast
qed

lemma tree_upto_cong_local:
  "\<forall>m\<in>subtree s n. children (s' m) = children (s m) \<Longrightarrow> tree_upto k s' n = tree_upto k s n"
proof (induction k arbitrary: n)
  case 0
  show ?case by simp
next
  case (Suc k)
  have n: "children (s' n) = children (s n)" using Suc.prems subtree.self by blast
  have "tree_upto k s' c = tree_upto k s c" if "c \<in> set (children (s n))" for c
    using Suc.prems subtree_child_sub[of c s n, OF that] by (intro Suc.IH) blast
  then show ?case by (simp add: n list_all_iff)
qed

lemma dirty_closed_on_all:
  assumes "dirty_closed_on F (subtree s n) s'" "\<forall>m. children (s' m) = children (s m)"
    "Dirty \<in> flags (s' n)" "m \<in> subtree s n"
  shows "Dirty \<in> flags (s' m) \<and> (\<forall>f\<in>set (features (s' m)). F f)"
proof -
  from assms(4) have "Dirty \<in> flags (s' m)"
  proof (induction rule: subtree.induct)
    case self
    show ?case by (rule assms(3))
  next
    case (child m c)
    then show ?case using assms(1,2) unfolding dirty_closed_on_def by auto
  qed
  then show ?thesis using assms(1,4) unfolding dirty_closed_on_def by auto
qed

lemma setDirty_closure_on:
  assumes "tree_upto k s n" "dirty_closed_on F (subtree s n) s" "\<forall>f. F (markDirty f)"
  shows "\<exists>s'. setDirty s n = Some s' \<and> only_dirtied s s' \<and>
           (\<forall>m\<in>subtree s n. Dirty \<in> flags (s' m) \<and> (\<forall>f\<in>set (features (s' m)). F f))"
proof -
  from setDirty_rec_SetDirty_total[OF assms]
  obtain s' where s': "setDirty_rec s (SetDirty n) = Some s'" "dirty_closed_on F (subtree s n) s'"
    "Dirty \<in> flags (s' n)" by blast
  have od: "only_dirtied s s'" using setDirty_rec_frame[OF s'(1)] by simp
  then have "\<forall>m. children (s' m) = children (s m)" by (simp add: only_dirtied_def)
  from dirty_closed_on_all[OF s'(2) this s'(3)] s'(1) od show ?thesis
    by (auto simp: setDirty_def)
qed

lemma markDirty_invalidated: "\<forall>f. invalidated (markDirty f)"
  by (simp add: markDirty_def)

lemma setDirty_closure:
  assumes "tree_upto k s n" "dirty_closed s n"
  shows "\<exists>s'. setDirty s n = Some s' \<and> only_dirtied s s' \<and>
           (\<forall>m\<in>subtree s n. Dirty \<in> flags (s' m) \<and> (\<forall>f\<in>set (features (s' m)). invalidated f))"
  by (rule setDirty_closure_on[OF assms(1) assms(2)[unfolded dirty_closed_def] markDirty_invalidated])

lemma dirty_descends_closed_on:
  "dirty_descends s n = dirty_closed_on (\<lambda>_. True) (subtree s n) s"
  by (simp add: dirty_descends_def dirty_closed_on_def)

lemma dirty_closed_iff: "dirty_closed s n \<longleftrightarrow> dirty_descends s n \<and> dirty_features_invalid s n"
  unfolding dirty_closed_def dirty_closed_on_def dirty_descends_def dirty_features_invalid_def
  by blast

lemma setParent_skip:
  assumes "setParent_skips s this newParent"
  shows "setParent s this newParent = Some s"
proof (cases "parent (s this) = newParent \<or> isScene (s this)")
  case True
  then show ?thesis by (simp add: setParent_def)
next
  case False
  with assms obtain p k where "newParent = Some p" "ascend s k p = Some this"
    by (auto simp: setParent_skips_def ancestor_or_self_def)
  then show ?thesis using parentedToChild_found[of s k p this] by (simp add: setParent_def)
qed

lemma setParent_relink:
  assumes "\<not> setParent_skips s this newParent" "\<forall>p. newParent = Some p \<longrightarrow> rooted s p"
  shows "setParent s this newParent = setDirty (relink s this newParent) this"
proof -
  have "parentedToChild s this newParent = Some False"
  proof (cases newParent)
    case None
    then show ?thesis by (simp add: parentedToChild_None)
  next
    case (Some p)
    with assms(2) obtain k r where "ascend s k p = Some r" "parent (s r) = None"
      by (auto simp: rooted_def)
    moreover have "\<forall>j. ascend s j p \<noteq> Some this"
      using assms(1) Some by (auto simp: setParent_skips_def ancestor_or_self_def)
    ultimately show ?thesis using Some by (simp add: parentedToChild_not_found)
  qed
  then show ?thesis using assms(1)
    by (simp add: setParent_def setParent_skips_def relink_def Let_def)
qed

lemma relink_fields:
  "flags (relink s this np m) = flags (s m)"
  "features (relink s this np m) = features (s m)"
  "transformation (relink s this np m) = transformation (s m)"
  "counter (relink s this np m) = counter (s m)"
  "isScene (relink s this np m) = isScene (s m)"
  by (simp_all add: relink_def LinkedList_cut_def LinkedList_insert_def Let_def
      split: option.splits)

lemma relink_parent:
  "parent (s this) \<noteq> np \<Longrightarrow>
     parent (relink s this np m) = (if m = this then np else parent (s m))"
  by (auto simp add: relink_def LinkedList_cut_def LinkedList_insert_def Let_def
      split: option.splits)

lemma relink_children:
  "parent (s this) \<noteq> np \<Longrightarrow>
   children (relink s this np m) =
     (if np = Some m then children (s m) @ [this]
      else if parent (s this) = Some m then removeAll this (children (s m))
      else children (s m))"
  by (auto simp add: relink_def LinkedList_cut_def LinkedList_insert_def Let_def
      split: option.splits)

lemma relink_subtree_children:
  assumes "\<not> setParent_skips s this np" "linked s" "tree_upto k s this" "m \<in> subtree s this"
  shows "children (relink s this np m) = children (s m)"
proof -
  from assms(1) have ne: "parent (s this) \<noteq> np" by (simp add: setParent_skips_def)
  have "np \<noteq> Some m"
    using assms(1) linked_subtree_ascend[OF assms(2,4)]
    by (auto simp: setParent_skips_def ancestor_or_self_def)
  moreover have "this \<notin> set (children (s m))"
    by (rule tree_upto_acyclic[OF assms(3,4)])
  ultimately show ?thesis using relink_children[of s this np m] ne by simp
qed

lemma setParent_relink_dirty:
  assumes skips: "\<not> setParent_skips s this np" and root: "\<forall>p. np = Some p \<longrightarrow> rooted s p"
    and lk: "linked s" and tr: "tree_upto k s this"
    and dc: "dirty_closed_on F (subtree s this) s" and mk: "\<forall>f. F (markDirty f)"
  shows "\<exists>s'. setParent s this np = Some s' \<and> only_dirtied (relink s this np) s' \<and>
           subtree s' this = subtree s this \<and>
           (\<forall>m\<in>subtree s this. Dirty \<in> flags (s' m) \<and> (\<forall>f\<in>set (features (s' m)). F f))"
proof -
  let ?s2 = "relink s this np"
  have ch: "\<forall>m\<in>subtree s this. children (?s2 m) = children (s m)"
    using relink_subtree_children[OF skips lk tr] by blast
  have st: "subtree ?s2 this = subtree s this" by (rule subtree_cong_local[OF ch])
  have t2: "tree_upto k ?s2 this" using tr by (simp add: tree_upto_cong_local[OF ch])
  have d2: "dirty_closed_on F (subtree ?s2 this) ?s2"
    using dc ch unfolding st dirty_closed_on_def
    by (simp add: relink_fields)
  from setDirty_closure_on[OF t2 d2 mk] obtain s' where
    s': "setDirty ?s2 this = Some s'" "only_dirtied ?s2 s'"
      "\<forall>m\<in>subtree ?s2 this. Dirty \<in> flags (s' m) \<and> (\<forall>f\<in>set (features (s' m)). F f)"
    by blast
  have "subtree s' this = subtree ?s2 this"
    by (rule subtree_cong) (use s'(2) in \<open>simp add: only_dirtied_def\<close>)
  then show ?thesis using s' st setParent_relink[OF skips root] by auto
qed

lemma setParent_Some:
  assumes "setParent s this newParent = Some s'"
  shows "s' = s \<or> (parent (s this) \<noteq> newParent \<and> \<not> isScene (s this) \<and>
           setDirty (relink s this newParent) this = Some s')"
  using assms
  by (auto simp: setParent_def relink_def Let_def bind_eq_Some_conv split: if_splits)

lemma example_linked: "linked example"
  by (auto simp: linked_def example_def blank_def split: if_splits)

lemma example_dirty_closed: "dirty_closed example n"
  by (auto simp: dirty_closed_def dirty_closed_on_def example_def blank_def split: if_splits)

lemma example_ascend3: "ascend example (Suc (Suc (Suc k))) n = None"
  by (auto simp: example_def blank_def split: option.splits)

lemma nat_cases3: "k = 0 \<or> k = Suc 0 \<or> k = Suc (Suc 0) \<or> (\<exists>j. k = Suc (Suc (Suc j)))"
  by presburger

subsection \<open>The claims on setDirty, setParent and absoluteTransformation\<close>

text \<open>
  Claim C9.  \<open>absoluteTransformation\<close> of an object without a parent returns exactly the
  object's own transformation.  Nothing is asked of \<open>isScene\<close>: a detached object and
  the scene are treated alike.
\<close>

theorem absoluteTransformation_parentless:
  "parent (s n) = None \<Longrightarrow> absoluteTransformation compose s n = Some (transformation (s n))"
  by (subst absoluteTransformation.simps) simp

theorem absoluteTransformation_parentless_witness:
  "parent (example 4) = None \<and> \<not> isScene (example 4) \<and>
   absoluteTransformation (@) example 4 = Some (transformation (example 4))"
  using absoluteTransformation_parentless[of example 4 "(@)"]
  by (simp add: example_def blank_def)

text \<open>
  Claim C10.  Whenever \<open>setDirty\<close> returns, parent, children and their order,
  transformation, counter and the flags other than \<open>Dirty\<close> are those of before at
  every object, features are at most invalidated, and an object outside the subtree
  of \<open>n\<close> is unchanged altogether.
\<close>

theorem setDirty_frame:
  assumes "setDirty s n = Some s'"
  shows "only_dirtied s s' \<and> (\<forall>m. m \<notin> subtree s n \<longrightarrow> s' m = s m)"
  using setDirty_rec_frame[OF assms[unfolded setDirty_def]] by simp

theorem setDirty_frame_witness:
  "\<exists>s'. setDirty example 1 = Some s' \<and> only_dirtied example s' \<and>
        s' 0 = example 0 \<and> s' 4 = example 4"
proof -
  have "tree_upto 2 example 1"
    by (simp add: numeral_2_eq_2 example_def blank_def)
  from setDirty_closure[OF this example_dirty_closed] obtain s' where
    s': "setDirty example 1 = Some s'" by blast
  have sub: "m \<in> subtree example 1 \<Longrightarrow> m \<in> {1, 2, 3}" for m
    by (induction rule: subtree.induct) (auto simp: example_def blank_def split: if_splits)
  have "0 \<notin> subtree example 1" "4 \<notin> subtree example 1" using sub by fastforce+
  with setDirty_frame[OF s'] s' show ?thesis by auto
qed

text \<open>
  Claim C6 as stated fails.  The store \<open>example_stale\<close> is a tree with consistent
  links in which the dirty flag is closed under descent (I4); its object 3 lies below
  object 1, is dirty and holds a feature with a valid cache.  \<open>setDirty\<close> at 1 returns
  at once when it comes to 3, and the feature of 3 is as valid as before.
\<close>

theorem setDirty_stale_feature_counterexample:
  "linked example_stale \<and> tree_upto 3 example_stale 0 \<and> dirty_descends example_stale 0 \<and>
   3 \<in> subtree example_stale 1 \<and>
   map_option (\<lambda>s'. (Dirty \<in> flags (s' 3), features (s' 3))) (setDirty example_stale 1)
     = Some (True, [\<lparr>invalidated = False\<rparr>])"
proof -
  have "linked example_stale"
    by (auto simp: linked_def example_stale_def example_def blank_def split: if_splits)
  moreover have "tree_upto 3 example_stale 0"
    by (simp add: numeral_3_eq_3 example_stale_def example_def blank_def)
  moreover have "dirty_descends example_stale 0"
    by (auto simp: dirty_descends_def example_stale_def example_def blank_def split: if_splits)
  moreover have "3 \<in> subtree example_stale 1"
    by (rule subtree.child[OF subtree.self]) (simp add: example_stale_def example_def blank_def)
  moreover have "map_option (\<lambda>s'. (Dirty \<in> flags (s' 3), features (s' 3)))
      (setDirty example_stale 1) = Some (True, [\<lparr>invalidated = False\<rparr>])"
    by (simp add: setDirty_def setDirty_rec.simps example_stale_def example_def blank_def)
  ultimately show ?thesis by blast
qed

text \<open>
  Claim C6, as amended.  On a tree with consistent links in which the dirty flag is
  closed under descent (I4), \<open>setDirty\<close> at \<open>n\<close> returns, and every object of the
  subtree of \<open>n\<close> is dirty afterwards; every feature in the subtree is invalidated
  afterwards when, before the call, no dirty object of the subtree held a feature
  with a valid cache.  The same holds of \<open>n\<close> and its subtree after a \<open>setParent\<close> that
  relinks \<open>n\<close>.  And in any store whatever, \<open>setDirty\<close> at a dirty object returns with
  the store untouched: no feature is invalidated and no child is visited.
\<close>

theorem dirty_closure:
  assumes "tree_upto k s n" and "linked s" and "dirty_descends s n"
    and "\<forall>p. newParent = Some p \<longrightarrow> rooted s p"
  shows "(\<exists>s'. setDirty s n = Some s' \<and> (\<forall>m\<in>subtree s n. Dirty \<in> flags (s' m)) \<and>
            (dirty_features_invalid s n \<longrightarrow>
               (\<forall>m\<in>subtree s n. \<forall>f\<in>set (features (s' m)). invalidated f)))
       \<and> (\<not> setParent_skips s n newParent \<longrightarrow>
            (\<exists>s'. setParent s n newParent = Some s' \<and> subtree s' n = subtree s n \<and>
               (\<forall>m\<in>subtree s' n. Dirty \<in> flags (s' m)) \<and>
               (dirty_features_invalid s n \<longrightarrow>
                  (\<forall>m\<in>subtree s' n. \<forall>f\<in>set (features (s' m)). invalidated f))))
       \<and> (\<forall>s0 m. Dirty \<in> flags (s0 m) \<longrightarrow> setDirty s0 m = Some s0)"
proof (intro conjI)
  have d4: "dirty_closed_on (\<lambda>_. True) (subtree s n) s"
    using assms(3) by (simp add: dirty_descends_closed_on)
  have tt: "\<forall>f. (\<lambda>_. True) (markDirty f)" by simp
  have dc: "dirty_closed_on invalidated (subtree s n) s" if "dirty_features_invalid s n"
    using that assms(3) dirty_closed_iff[of s n] by (simp add: dirty_closed_def)
  from setDirty_closure_on[OF assms(1) d4 tt] obtain s1 where
    s1: "setDirty s n = Some s1" "\<forall>m\<in>subtree s n. Dirty \<in> flags (s1 m)" by blast
  have "\<forall>m\<in>subtree s n. \<forall>f\<in>set (features (s1 m)). invalidated f"
    if "dirty_features_invalid s n"
    using setDirty_closure_on[OF assms(1) dc[OF that] markDirty_invalidated] s1(1) by auto
  with s1 show "\<exists>s'. setDirty s n = Some s' \<and> (\<forall>m\<in>subtree s n. Dirty \<in> flags (s' m)) \<and>
            (dirty_features_invalid s n \<longrightarrow>
               (\<forall>m\<in>subtree s n. \<forall>f\<in>set (features (s' m)). invalidated f))"
    by blast
  show "\<not> setParent_skips s n newParent \<longrightarrow>
            (\<exists>s'. setParent s n newParent = Some s' \<and> subtree s' n = subtree s n \<and>
               (\<forall>m\<in>subtree s' n. Dirty \<in> flags (s' m)) \<and>
               (dirty_features_invalid s n \<longrightarrow>
                  (\<forall>m\<in>subtree s' n. \<forall>f\<in>set (features (s' m)). invalidated f)))"
  proof
    assume ns: "\<not> setParent_skips s n newParent"
    from setParent_relink_dirty[OF ns assms(4,2,1) d4 tt] obtain s2 where
      s2: "setParent s n newParent = Some s2" "subtree s2 n = subtree s n"
        "\<forall>m\<in>subtree s n. Dirty \<in> flags (s2 m)" by blast
    have "\<forall>m\<in>subtree s n. \<forall>f\<in>set (features (s2 m)). invalidated f"
      if "dirty_features_invalid s n"
      using setParent_relink_dirty[OF ns assms(4,2,1) dc[OF that] markDirty_invalidated] s2(1)
      by auto
    with s2 show "\<exists>s'. setParent s n newParent = Some s' \<and> subtree s' n = subtree s n \<and>
               (\<forall>m\<in>subtree s' n. Dirty \<in> flags (s' m)) \<and>
               (dirty_features_invalid s n \<longrightarrow>
                  (\<forall>m\<in>subtree s' n. \<forall>f\<in>set (features (s' m)). invalidated f))"
      by auto
  qed
  show "\<forall>s0 m. Dirty \<in> flags (s0 m) \<longrightarrow> setDirty s0 m = Some s0"
    unfolding setDirty_def by (intro allI impI, subst setDirty_rec.simps) simp
qed

theorem dirty_closure_witness:
  "tree_upto 2 example 1 \<and> linked example \<and> dirty_descends example 1 \<and>
   dirty_features_invalid example 1 \<and> rooted example 4 \<and>
   \<not> setParent_skips example 1 (Some 4) \<and>
   (\<exists>s'. setDirty example 1 = Some s' \<and> Dirty \<in> flags (s' 1) \<and> Dirty \<in> flags (s' 2) \<and>
         Dirty \<in> flags (s' 3) \<and> list_all invalidated (features (s' 1)) \<and>
         list_all invalidated (features (s' 2))) \<and>
   (\<exists>s'. setParent example 1 (Some 4) = Some s' \<and> Dirty \<in> flags (s' 1) \<and>
         Dirty \<in> flags (s' 2) \<and> Dirty \<in> flags (s' 3) \<and>
         list_all invalidated (features (s' 2))) \<and>
   Dirty \<in> flags (example_top 1) \<and> Dirty \<notin> flags (example_top 2) \<and>
   features (example_top 1) = [\<lparr>invalidated = False\<rparr>] \<and>
   setDirty example_top 1 = Some example_top \<and>
   Dirty \<in> flags (example_stale 3) \<and> features (example_stale 3) = [\<lparr>invalidated = False\<rparr>] \<and>
   setDirty example_stale 3 = Some example_stale"
proof -
  have t: "tree_upto 2 example 1"
    by (simp add: numeral_2_eq_2 example_def blank_def)
  have dd: "dirty_descends example 1" "dirty_features_invalid example 1"
    using example_dirty_closed[of 1] by (simp_all add: dirty_closed_iff)
  have r: "rooted example 4"
    unfolding rooted_def by (rule exI[of _ 0]) (simp add: example_def blank_def)
  have r': "\<forall>p. Some 4 = Some p \<longrightarrow> rooted example p" using r by simp
  have "ascend example k 4 \<noteq> Some 1" for k
    by (cases k) (simp_all add: example_def blank_def)
  then have ns: "\<not> setParent_skips example 1 (Some 4)"
    by (simp add: setParent_skips_def ancestor_or_self_def example_def blank_def)
  have m1: "1 \<in> subtree example 1" by (rule subtree.self)
  have m2: "2 \<in> subtree example 1"
    by (rule subtree.child[OF subtree.self]) (simp add: example_def blank_def)
  have m3: "3 \<in> subtree example 1"
    by (rule subtree.child[OF subtree.self]) (simp add: example_def blank_def)
  note m = m1 m2 m3
  note dc = dirty_closure[OF t example_linked dd(1) r']
  from dc dd(2) obtain s1 where
    s1: "setDirty example 1 = Some s1" "\<forall>m\<in>subtree example 1. Dirty \<in> flags (s1 m)"
      "\<forall>m\<in>subtree example 1. \<forall>f\<in>set (features (s1 m)). invalidated f"
    by blast
  from dc dd(2) ns obtain s2 where
    s2: "setParent example 1 (Some 4) = Some s2" "subtree s2 1 = subtree example 1"
      "\<forall>m\<in>subtree s2 1. Dirty \<in> flags (s2 m)"
      "\<forall>m\<in>subtree s2 1. \<forall>f\<in>set (features (s2 m)). invalidated f"
    by blast
  have a: "\<exists>s'. setDirty example 1 = Some s' \<and> Dirty \<in> flags (s' 1) \<and> Dirty \<in> flags (s' 2) \<and>
         Dirty \<in> flags (s' 3) \<and> list_all invalidated (features (s' 1)) \<and>
         list_all invalidated (features (s' 2))"
    using s1 m by (auto simp: list_all_iff)
  have b: "\<exists>s'. setParent example 1 (Some 4) = Some s' \<and> Dirty \<in> flags (s' 1) \<and>
         Dirty \<in> flags (s' 2) \<and> Dirty \<in> flags (s' 3) \<and>
         list_all invalidated (features (s' 2))"
    using s2 m by (auto simp: list_all_iff)
  have e1: "Dirty \<in> flags (example_top 1)" "Dirty \<notin> flags (example_top 2)"
    "features (example_top 1) = [\<lparr>invalidated = False\<rparr>]"
    by (simp_all add: example_top_def example_def blank_def)
  have e2: "Dirty \<in> flags (example_stale 3)"
    "features (example_stale 3) = [\<lparr>invalidated = False\<rparr>]"
    by (simp_all add: example_stale_def example_def blank_def)
  have c1: "setDirty example_top 1 = Some example_top" using dc e1(1) by blast
  have c2: "setDirty example_stale 3 = Some example_stale" using dc e2(1) by blast
  show ?thesis using t example_linked dd r ns a b e1 c1 e2 c2 by blast
qed

text \<open>
  Claim C7.  \<open>setParent\<close> leaves the store as it is when the new parent is the
  current one, when \<open>this\<close> is a scene, or when the new parent is \<open>this\<close> or a
  descendant of it.  In every other case \<open>this\<close> is gone from the children of its old
  parent, is among the children of the new one, has the new parent as its parent, and
  is dirty.
\<close>

theorem setParent_cases:
  assumes "linked s" and "tree_upto k s this" and "\<forall>p. newParent = Some p \<longrightarrow> rooted s p"
  shows "if setParent_skips s this newParent then setParent s this newParent = Some s
         else (\<exists>s'. setParent s this newParent = Some s' \<and>
                 parent (s' this) = newParent \<and>
                 (\<forall>old. parent (s this) = Some old \<longrightarrow> this \<notin> set (children (s' old))) \<and>
                 (\<forall>new. newParent = Some new \<longrightarrow> this \<in> set (children (s' new))) \<and>
                 Dirty \<in> flags (s' this))"
proof (cases "setParent_skips s this newParent")
  case True
  then show ?thesis by (simp add: setParent_skip)
next
  case False
  let ?s2 = "relink s this newParent"
  from False have ne: "parent (s this) \<noteq> newParent" by (simp add: setParent_skips_def)
  have ch: "\<forall>m\<in>subtree s this. children (?s2 m) = children (s m)"
    using relink_subtree_children[OF False assms(1,2)] by blast
  have t2: "tree_upto k ?s2 this" using assms(2) by (simp add: tree_upto_cong_local[OF ch])
  have "dirty_closed_on invalidated {} ?s2" by (simp add: dirty_closed_on_def)
  from setDirty_rec_SetDirty_total[OF t2 this markDirty_invalidated]
  obtain s' where s': "setDirty_rec ?s2 (SetDirty this) = Some s'" "Dirty \<in> flags (s' this)"
    by blast
  have od: "only_dirtied ?s2 s'" using setDirty_rec_frame[OF s'(1)] by simp
  have run: "setParent s this newParent = Some s'"
    using setParent_relink[OF False assms(3)] s'(1) by (simp add: setDirty_def)
  have "parent (s' this) = newParent"
    using od ne relink_parent[of s this newParent this] by (simp add: only_dirtied_def)
  moreover have "this \<notin> set (children (s' old))" if "parent (s this) = Some old" for old
    using od relink_children[of s this newParent old] that ne by (auto simp add: only_dirtied_def)
  moreover have "this \<in> set (children (s' new))" if "newParent = Some new" for new
    using od ne relink_children[of s this newParent new] that by (simp add: only_dirtied_def)
  ultimately show ?thesis using False run s'(2) by auto
qed

theorem setParent_cases_witness:
  "linked example \<and> tree_upto 2 example 1 \<and> tree_upto 1 example 2 \<and> rooted example 3 \<and>
   setParent_skips example 1 (Some 3) \<and> setParent example 1 (Some 3) = Some example \<and>
   \<not> setParent_skips example 2 (Some 3) \<and>
   (\<exists>s'. setParent example 2 (Some 3) = Some s' \<and> parent (s' 2) = Some 3 \<and>
         2 \<notin> set (children (s' 1)) \<and> 2 \<in> set (children (s' 3)) \<and> Dirty \<in> flags (s' 2))"
proof -
  have t1: "tree_upto 2 example 1"
    by (simp add: numeral_2_eq_2 example_def blank_def)
  have t2: "tree_upto 1 example 2"
    by (simp add: example_def blank_def)
  have "ascend example 2 3 = Some 0 \<and> parent (example 0) = None"
    by (simp add: numeral_2_eq_2 example_def blank_def)
  then have r: "rooted example 3" unfolding rooted_def by blast
  have r': "\<forall>p. Some 3 = Some p \<longrightarrow> rooted example p" using r by simp
  have "ascend example 1 3 = Some 1" by (simp add: example_def blank_def)
  then have sk: "setParent_skips example 1 (Some 3)"
    unfolding setParent_skips_def ancestor_or_self_def by blast
  have "ascend example k 3 \<noteq> Some 2" for k
    using nat_cases3[of k] example_ascend3[of _ 3]
    by (auto simp: example_def blank_def)
  then have ns: "\<not> setParent_skips example 2 (Some 3)"
    by (simp add: setParent_skips_def ancestor_or_self_def example_def blank_def)
  have p2: "parent (example 2) = Some 1" by (simp add: example_def blank_def)
  have a: "setParent example 1 (Some 3) = Some example"
    using setParent_cases[OF example_linked t1 r'] sk by simp
  have b: "\<exists>s'. setParent example 2 (Some 3) = Some s' \<and> parent (s' 2) = Some 3 \<and>
         2 \<notin> set (children (s' 1)) \<and> 2 \<in> set (children (s' 3)) \<and> Dirty \<in> flags (s' 2)"
    using setParent_cases[OF example_linked t2 r'] ns p2 by auto
  show ?thesis using example_linked t1 t2 r sk a ns b by blast
qed

text \<open>
  Claim C8 as stated fails: object 2, which is no scene and has the parent 1, is left
  without a parent by \<open>setParent(nullptr)\<close>.
\<close>

theorem setParent_detaches_counterexample:
  "parent (example 2) = Some 1 \<and> \<not> isScene (example 2) \<and>
   map_option (\<lambda>s'. (parent (s' 2), isScene (s' 2))) (setParent example 2 None)
     = Some (None, False)"
  by (simp add: setParent_def parentedToChild.simps LinkedList_cut_def setDirty_def
      setDirty_rec.simps example_def blank_def)

text \<open>
  Claim C8, as amended.  On a tree with consistent links \<open>setParent\<close> returns, and
  then: no object has become or ceased to be a scene; the parent of a scene and of
  every object other than \<open>this\<close> is the one it was; an object that has no parent
  afterwards had none before, unless it is \<open>this\<close>, no scene, and the call was made
  with no new parent.  In that last case, when \<open>this\<close> had a parent, the code
  detaches it: \<open>this\<close> has no parent, is gone from the children of its old parent, the
  children of every other object are the ones they were, and \<open>this\<close> is dirty.
\<close>

theorem setParent_root_links:
  assumes "linked s" and "tree_upto k s this" and "\<forall>p. newParent = Some p \<longrightarrow> rooted s p"
  shows "\<exists>s'. setParent s this newParent = Some s' \<and>
           (\<forall>m. isScene (s' m) = isScene (s m)) \<and>
           (\<forall>m. isScene (s m) \<or> m \<noteq> this \<longrightarrow> parent (s' m) = parent (s m)) \<and>
           (\<forall>m. parent (s' m) = None \<longrightarrow>
                parent (s m) = None \<or> (m = this \<and> \<not> isScene (s this) \<and> newParent = None)) \<and>
           (\<forall>old. newParent = None \<and> \<not> isScene (s this) \<and> parent (s this) = Some old \<longrightarrow>
                parent (s' this) = None \<and>
                children (s' old) = removeAll this (children (s old)) \<and>
                this \<notin> set (children (s' old)) \<and>
                (\<forall>m. m \<noteq> old \<longrightarrow> children (s' m) = children (s m)) \<and>
                Dirty \<in> flags (s' this))"
proof (cases "setParent_skips s this newParent")
  case True
  then have run: "setParent s this newParent = Some s" by (rule setParent_skip)
  have "\<not> (newParent = None \<and> \<not> isScene (s this) \<and> parent (s this) = Some old)" for old
    using True by (auto simp: setParent_skips_def)
  with run show ?thesis by auto
next
  case False
  let ?s2 = "relink s this newParent"
  from False have ne: "parent (s this) \<noteq> newParent" and nsc: "\<not> isScene (s this)"
    by (simp_all add: setParent_skips_def)
  have ch: "\<forall>m\<in>subtree s this. children (?s2 m) = children (s m)"
    using relink_subtree_children[OF False assms(1,2)] by blast
  have t2: "tree_upto k ?s2 this" using assms(2) by (simp add: tree_upto_cong_local[OF ch])
  have "dirty_closed_on invalidated {} ?s2" by (simp add: dirty_closed_on_def)
  from setDirty_rec_SetDirty_total[OF t2 this markDirty_invalidated]
  obtain s' where s': "setDirty_rec ?s2 (SetDirty this) = Some s'" "Dirty \<in> flags (s' this)"
    by blast
  have od: "only_dirtied ?s2 s'" using setDirty_rec_frame[OF s'(1)] by simp
  have run: "setParent s this newParent = Some s'"
    using setParent_relink[OF False assms(3)] s'(1) by (simp add: setDirty_def)
  have sc: "isScene (s' m) = isScene (s m)" for m
    using od by (simp add: only_dirtied_def relink_fields)
  have pa: "parent (s' m) = (if m = this then newParent else parent (s m))" for m
    using od ne relink_parent[of s this newParent m] by (simp add: only_dirtied_def)
  have cs: "children (s' m) =
     (if newParent = Some m then children (s m) @ [this]
      else if parent (s this) = Some m then removeAll this (children (s m))
      else children (s m))" for m
    using od ne relink_children[of s this newParent m] by (simp add: only_dirtied_def)
  have 1: "\<forall>m. isScene (s m) \<or> m \<noteq> this \<longrightarrow> parent (s' m) = parent (s m)"
    using pa nsc by auto
  have 2: "\<forall>m. parent (s' m) = None \<longrightarrow>
       parent (s m) = None \<or> (m = this \<and> \<not> isScene (s this) \<and> newParent = None)"
    using pa nsc by auto
  have 3: "\<forall>old. newParent = None \<and> \<not> isScene (s this) \<and> parent (s this) = Some old \<longrightarrow>
       parent (s' this) = None \<and>
       children (s' old) = removeAll this (children (s old)) \<and>
       this \<notin> set (children (s' old)) \<and>
       (\<forall>m. m \<noteq> old \<longrightarrow> children (s' m) = children (s m)) \<and>
       Dirty \<in> flags (s' this)"
    using pa cs s'(2) by auto
  from run sc 1 2 3 show ?thesis by blast
qed

theorem setParent_root_links_witness:
  "linked example \<and> tree_upto 1 example 2 \<and> \<not> isScene (example 2) \<and>
   parent (example 2) = Some 1 \<and> children (example 1) = [2, 3] \<and>
   (\<exists>s'. setParent example 2 None = Some s' \<and> isScene (s' 0) \<and>
         parent (s' 0) = None \<and> parent (s' 1) = Some 0 \<and> parent (s' 3) = Some 1 \<and>
         parent (s' 2) = None \<and> children (s' 1) = [3] \<and> children (s' 0) = [1] \<and>
         children (s' 2) = [] \<and> Dirty \<in> flags (s' 2))"
proof -
  have t2: "tree_upto 1 example 2" by (simp add: example_def blank_def)
  have e: "\<not> isScene (example 2)" "parent (example 2) = Some 1" "children (example 1) = [2, 3]"
    "isScene (example 0)" "parent (example 0) = None" "parent (example 1) = Some 0"
    "parent (example 3) = Some 1" "children (example 0) = [1]" "children (example 2) = []"
    by (simp_all add: example_def blank_def)
  have n: "\<forall>p. (None :: ptr option) = Some p \<longrightarrow> rooted example p" by simp
  from setParent_root_links[OF example_linked t2 n] obtain s' where
    s': "setParent example 2 None = Some s'"
      "\<forall>m. isScene (s' m) = isScene (example m)"
      "\<forall>m. isScene (example m) \<or> m \<noteq> 2 \<longrightarrow> parent (s' m) = parent (example m)"
      "\<forall>old. None = (None :: ptr option) \<and> \<not> isScene (example 2) \<and> parent (example 2) = Some old \<longrightarrow>
         parent (s' 2) = None \<and>
         children (s' old) = removeAll 2 (children (example old)) \<and>
         2 \<notin> set (children (s' old)) \<and>
         (\<forall>m. m \<noteq> old \<longrightarrow> children (s' m) = children (example m)) \<and>
         Dirty \<in> flags (s' 2)"
    by blast
  from s'(4) e(1,2) have d: "parent (s' 2) = None"
    "children (s' 1) = removeAll 2 (children (example 1))"
    "\<forall>m. m \<noteq> 1 \<longrightarrow> children (s' m) = children (example m)" "Dirty \<in> flags (s' 2)"
    by blast+
  have "isScene (s' 0)" "parent (s' 0) = None" "parent (s' 1) = Some 0" "parent (s' 3) = Some 1"
    "children (s' 1) = [3]" "children (s' 0) = [1]" "children (s' 2) = []"
    using s'(2,3) d e by simp_all
  with s'(1) d(1,4) example_linked t2 e(1,2,3) show ?thesis by blast
qed

section \<open>The batch query\<close>

lemma walk_Nil: "walk scene s [] js = Some (Inr (s, js))"
  by (subst walk.simps) simp

lemma walk_Cons:
  "walk scene s (it # rest) js =
     (if Visited \<in> flags (s it) then walk scene s rest js
      else
        (case parent (s it) of
           None \<Rightarrow>
             if it \<noteq> scene then Some (Inl (NotSameTree, visit s it))
             else walk scene (visit s it) rest js
         | Some p \<Rightarrow>
             if flags (visit s it p) \<inter> {Visited, Joint} \<noteq> {} then
               (if Joint \<notin> flags (visit s it p) then
                  (if \<not> length js < 0xFFFF then Some (Inl (TooLargeScene, visit s it))
                   else if counter (visit s it p) \<noteq> 0xFFFF then Some (Inl (InternalAssert, visit s it))
                   else walk scene (promote (visit s it) p (length js)) rest (js @ [p]))
                else walk scene (visit s it) rest js)
             else walk scene (visit s it) (p # rest) js))"
  by (subst walk.simps) (simp add: Let_def)

lemma walk_invariant:
  assumes run0: "walk scene (s :: 't store) objs js = Some (Inr (s', js'))"
    and init: "I s objs js"
    and skip: "\<And>s it rest js. I s (it # rest) js \<Longrightarrow> Visited \<in> flags (s it) \<Longrightarrow> I s rest js"
    and root: "\<And>s rest js. I s (scene # rest) js \<Longrightarrow> Visited \<notin> flags (s scene) \<Longrightarrow>
                 parent (s scene) = None \<Longrightarrow> I (visit s scene) rest js"
    and prom: "\<And>s it rest js p. I s (it # rest) js \<Longrightarrow> Visited \<notin> flags (s it) \<Longrightarrow>
                 parent (s it) = Some p \<Longrightarrow> Visited \<in> flags (visit s it p) \<Longrightarrow>
                 Joint \<notin> flags (s p) \<Longrightarrow> length js < 0xFFFF \<Longrightarrow> counter (s p) = 0xFFFF \<Longrightarrow>
                 I (promote (visit s it) p (length js)) rest (js @ [p])"
    and stop: "\<And>s it rest js p. I s (it # rest) js \<Longrightarrow> Visited \<notin> flags (s it) \<Longrightarrow>
                 parent (s it) = Some p \<Longrightarrow> Joint \<in> flags (s p) \<Longrightarrow> I (visit s it) rest js"
    and climb: "\<And>s it rest js p. I s (it # rest) js \<Longrightarrow> Visited \<notin> flags (s it) \<Longrightarrow>
                 parent (s it) = Some p \<Longrightarrow> p \<noteq> it \<Longrightarrow> Visited \<notin> flags (s p) \<Longrightarrow>
                 Joint \<notin> flags (s p) \<Longrightarrow> I (visit s it) (p # rest) js"
  shows "I s' [] js'"
proof -
  define r :: "error \<times> 't store + 't store \<times> ptr list" where "r = Inr (s', js')"
  have run: "walk scene s objs js = Some r" using run0 by (simp add: r_def)
  have "scene = scene \<longrightarrow> I s objs js \<longrightarrow> (case r of Inl e \<Rightarrow> True | Inr (s', js') \<Rightarrow> I s' [] js')"
  proof (rule walk.raw_induct[where P = "\<lambda>sc s objs js r. sc = scene \<longrightarrow> I s objs js \<longrightarrow>
        (case r of Inl e \<Rightarrow> True | Inr (s', js') \<Rightarrow> I s' [] js')", OF _ run], goal_cases)
    case (1 rec sc s objs js r)
    show ?case
    proof (intro impI)
      assume sc: "sc = scene" and I: "I s objs js"
      note IH = 1(1)[rule_format, OF _ sc]
      show "case r of Inl e \<Rightarrow> True | Inr (s', js') \<Rightarrow> I s' [] js'"
      proof (cases objs)
        case Nil
        with 1(2) I show ?thesis by auto
      next
        case (Cons it rest)
        note I' = I[unfolded Cons]
        show ?thesis
        proof (cases "Visited \<in> flags (s it)")
          case True
          with 1(2) Cons have "rec sc s rest js = Some r" by simp
          from IH[OF this skip[OF I' True]] show ?thesis .
        next
          case nv: False
          show ?thesis
          proof (cases "parent (s it)")
            case None
            show ?thesis
            proof (cases "it = scene")
              case True
              with 1(2) Cons nv None sc have "rec sc (visit s it) rest js = Some r"
                by (simp add: Let_def)
              from IH[OF this] root[OF I'[unfolded True] nv[unfolded True] None[unfolded True]] True
              show ?thesis by simp
            next
              case False
              with 1(2) Cons nv None sc show ?thesis by (auto simp: Let_def)
            qed
          next
            case (Some p)
            show ?thesis
            proof (cases "flags (visit s it p) \<inter> {Visited, Joint} \<noteq> {}")
              case hit: True
              show ?thesis
              proof (cases "Joint \<in> flags (s p)")
                case True
                with 1(2) Cons nv Some hit have "rec sc (visit s it) rest js = Some r"
                  by (simp add: Let_def split: if_splits)
                from IH[OF this stop[OF I' nv Some True]] show ?thesis .
              next
                case nj: False
                then have vis: "Visited \<in> flags (visit s it p)" using hit by (auto split: if_splits)
                have nj': "Joint \<notin> flags (visit s it p)" using nj by auto
                show ?thesis
                proof (cases "length js < 0xFFFF \<and> counter (s p) = 0xFFFF")
                  case True
                  then have c: "counter (visit s it p) = 0xFFFF" by auto
                  from 1(2) Cons nv Some hit nj' True c
                  have "rec sc (promote (visit s it) p (length js)) rest (js @ [p]) = Some r"
                    by (simp add: Let_def fun_upd_same del: fun_upd_apply)
                  from IH[OF this prom[OF I' nv Some vis nj]] True show ?thesis by simp
                next
                  case False
                  then have "\<not> length js < 0xFFFF \<or> counter (visit s it p) \<noteq> 0xFFFF" by auto
                  with 1(2) Cons nv Some hit nj' show ?thesis
                    by (auto simp add: Let_def fun_upd_same simp del: fun_upd_apply split: if_splits)
                qed
              qed
            next
              case miss: False
              then have a: "p \<noteq> it" "Visited \<notin> flags (s p)" "Joint \<notin> flags (s p)"
                by (auto split: if_splits)
              from 1(2) Cons nv Some miss have "rec sc (visit s it) (p # rest) js = Some r"
                by (simp add: Let_def fun_upd_same del: fun_upd_apply)
              from IH[OF this climb[OF I' nv Some a]] show ?thesis .
            qed
          qed
        qed
      qed
    qed
  qed
  with init show ?thesis by (simp add: r_def)
qed

lemma unvisited_only_refl: "unvisited_only s s"
  by (simp add: unvisited_only_def)

lemma unvisited_only_step: "Visited \<in> flags (s ob) \<Longrightarrow> unvisited_only s (unvisit s ob)"
  by (simp add: unvisited_only_def)

lemma unvisited_only_trans:
  "unvisited_only s s1 \<Longrightarrow> unvisited_only s1 s2 \<Longrightarrow> unvisited_only s s2"
  unfolding unvisited_only_def
  apply (intro allI)
  subgoal for x
    apply (erule_tac x=x in allE)+
    apply auto
    done
  done

lemma unvisited_only_Visited:
  "unvisited_only s s' \<Longrightarrow> Visited \<in> flags (s' x) \<Longrightarrow> Visited \<in> flags (s x)"
  unfolding unvisited_only_def by (erule_tac x=x in allE) auto

lemma unvisited_only_fields:
  assumes "unvisited_only s s'"
  shows "parent (s' x) = parent (s x)" "children (s' x) = children (s x)"
    "features (s' x) = features (s x)" "transformation (s' x) = transformation (s x)"
    "counter (s' x) = counter (s x)" "isScene (s' x) = isScene (s x)"
    "flags (s' x) - {Visited} = flags (s x) - {Visited}"
    "Joint \<in> flags (s' x) \<longleftrightarrow> Joint \<in> flags (s x)"
    "Dirty \<in> flags (s' x) \<longleftrightarrow> Dirty \<in> flags (s x)"
  using assms[unfolded unvisited_only_def, rule_format, of x] by auto

lemma logged_refl: "logged s s lg lg"
  by (simp add: logged_def)

lemma logged_step: "Visited \<in> flags (s ob) \<Longrightarrow> logged s (unvisit s ob) lg (lg @ [ob])"
  by (auto simp: logged_def)

lemma logged_after:
  assumes "Visited \<in> flags (s ob)" "unvisited_only (unvisit s ob) s2"
    "logged (unvisit s ob) s2 lg lg2"
  shows "logged s s2 lg (lg2 @ [ob])"
proof -
  from assms(3) obtain new where new: "lg2 = lg @ new" "distinct new"
    "set new = {x. Visited \<in> flags (unvisit s ob x) \<and> Visited \<notin> flags (s2 x)}"
    unfolding logged_def by blast
  have ob2: "Visited \<notin> flags (s2 ob)"
    using unvisited_only_Visited[OF assms(2), of ob] by auto
  have "set (new @ [ob]) = {x. Visited \<in> flags (s x) \<and> Visited \<notin> flags (s2 x)}"
    using new(3) assms(1) ob2 by (auto split: if_splits)
  moreover have "distinct (new @ [ob])" using new(2,3) by auto
  ultimately show ?thesis unfolding logged_def using new(1)
    by (intro exI[of _ "new @ [ob]"]) simp
qed

lemma logged_before:
  assumes "Visited \<in> flags (s ob)" "unvisited_only (unvisit s ob) s2"
    "logged (unvisit s ob) s2 (lg @ [ob]) lg2"
  shows "logged s s2 lg lg2"
proof -
  from assms(3) obtain new where new: "lg2 = (lg @ [ob]) @ new" "distinct new"
    "set new = {x. Visited \<in> flags (unvisit s ob x) \<and> Visited \<notin> flags (s2 x)}"
    unfolding logged_def by blast
  have ob2: "Visited \<notin> flags (s2 ob)"
    using unvisited_only_Visited[OF assms(2), of ob] by auto
  have "set (ob # new) = {x. Visited \<in> flags (s x) \<and> Visited \<notin> flags (s2 x)}"
    using new(3) assms(1) ob2 by (auto split: if_splits)
  moreover have "distinct (ob # new)" using new(2,3) by auto
  ultimately show ?thesis unfolding logged_def using new(1)
    by (intro exI[of _ "ob # new"]) simp
qed

lemma logged_trans:
  assumes "unvisited_only s s1" "unvisited_only s1 s2" "logged s s1 lg lg1" "logged s1 s2 lg1 lg2"
  shows "logged s s2 lg lg2"
proof -
  from assms(3) obtain n1 where n1: "lg1 = lg @ n1" "distinct n1"
    "set n1 = {x. Visited \<in> flags (s x) \<and> Visited \<notin> flags (s1 x)}"
    unfolding logged_def by blast
  from assms(4) obtain n2 where n2: "lg2 = lg1 @ n2" "distinct n2"
    "set n2 = {x. Visited \<in> flags (s1 x) \<and> Visited \<notin> flags (s2 x)}"
    unfolding logged_def by blast
  have "set (n1 @ n2) = {x. Visited \<in> flags (s x) \<and> Visited \<notin> flags (s2 x)}"
    using n1(3) n2(3) unvisited_only_Visited[OF assms(1)] unvisited_only_Visited[OF assms(2)]
    by auto
  moreover have "distinct (n1 @ n2)" using n1(2,3) n2(2,3) by auto
  ultimately show ?thesis unfolding logged_def using n1(1) n2(1)
    by (intro exI[of _ "n1 @ n2"]) simp
qed

lemma closed_up_weaken: "closed_up V0 None s \<Longrightarrow> closed_up V0 ex s"
  by (auto simp: closed_up_def)

lemma closed_up_unvisit:
  assumes "closed_up V0 (Some ob) s"
    and "\<And>v. parent (s ob) = Some v \<Longrightarrow> Joint \<in> flags (s v) \<or> ex = Some v"
  shows "closed_up V0 ex (unvisit s ob)"
  unfolding closed_up_def
proof (intro allI impI, elim conjE)
  fix c v
  assume a: "parent (unvisit s ob c) = Some v" "Joint \<notin> flags (unvisit s ob v)" "c \<in> V0"
    "Visited \<notin> flags (unvisit s ob c)"
  from a(1) have p: "parent (s c) = Some v" by (simp split: if_splits)
  from a(2) have j: "Joint \<notin> flags (s v)" by (simp split: if_splits)
  from a(4) have "c = ob \<or> Visited \<notin> flags (s c)" by (simp split: if_splits)
  then have "Visited \<notin> flags (s v) \<or> v = ob \<or> ex = Some v"
  proof
    assume "c = ob"
    with assms(2)[of v] p j show ?thesis by blast
  next
    assume "Visited \<notin> flags (s c)"
    with assms(1) p j a(3) show ?thesis unfolding closed_up_def by blast
  qed
  then show "Visited \<notin> flags (unvisit s ob v) \<or> ex = Some v"
    by auto
qed

lemma cjt_rec_post:
  assumes "cjt_rec compose initial js st c = Some (Inr st')"
  shows "cjt_post V0 js st c st'"
proof -
  have "\<forall>x. r = Inr x \<longrightarrow> cjt_post V0 js st c x"
    if "cjt_rec compose initial js st c = Some r" for r
  proof (rule cjt_rec.raw_induct[where P = "\<lambda>cmp ini js st c r.
        \<forall>x. r = Inr x \<longrightarrow> cjt_post V0 js st c x", OF _ that], goal_cases)
    case (1 rec cmp ini js st c r)
    show ?case
    proof (intro allI impI)
    fix st' assume r: "r = Inr st'"
    obtain s jt lg where st: "st = (s, jt, lg)" by (cases st)
    obtain s' jt' lg' where st': "st' = (s', jt', lg')" by (cases st')
    note IH = 1(1)[rule_format, OF _ refl]
    note body = 1(2)[unfolded r st]
    show "cjt_post V0 js st c st'"
    proof (cases c)
      case (Enter j)
      show ?thesis
      proof (cases "j < length js \<and> j < length jt")
        case False
        with body Enter show ?thesis by auto
      next
        case inr: True
        show ?thesis
        proof (cases "Visited \<in> flags (s (js ! j))")
          case False
          with body Enter inr have "st' = (s, jt, lg)" by auto
          with False show ?thesis
            by (simp add: cjt_post_def st Enter unvisited_only_refl logged_refl)
        next
          case True
          with body Enter inr have
            "rec cmp ini js (s, jt[j := transformation (s (js ! j))], lg) (Loop j (js ! j)) = Some (Inr st')"
            by simp
          from IH[OF this] show ?thesis
            by (auto simp: cjt_post_def st st' Enter intro: closed_up_weaken)
        qed
      qed
    next
      case (Loop j ob)
      show ?thesis
      proof (cases "Visited \<in> flags (s ob)")
        case False
        with body Loop show ?thesis by auto
      next
        case vis: True
        let ?s1 = "unvisit s ob"
        note uo = unvisited_only_step[of s ob, OF vis]
        have ob1: "Visited \<notin> flags (?s1 ob)" by simp
        have sub: "{x. Visited \<in> flags (?s1 x)} \<subseteq> V0" if "{x. Visited \<in> flags (s x)} \<subseteq> V0"
          using that by auto
        show ?thesis
        proof (cases "parent (s ob)")
          case None
          with body Loop vis have "st' = (?s1, jt[j := cmp ini (jt ! j)], lg @ [ob])"
            by (auto simp: Let_def split: if_splits)
          then show ?thesis
            using uo logged_step[of s ob lg, OF vis] closed_up_unvisit[of V0 ob s None] None
            by (simp add: cjt_post_def st Loop)
        next
          case (Some p)
          show ?thesis
          proof (cases "Joint \<in> flags (s p)")
            case True
            then have j1: "Joint \<in> flags (?s1 p)" by auto
            from body Loop vis Some j1 obtain r0 where
              r0: "rec cmp ini js (?s1, jt, lg) (Enter (unat (counter (?s1 p)))) = Some r0"
              and r: "(case r0 of Inl e \<Rightarrow> Some (Inl e)
                       | Inr (s2, jt2, lg2) \<Rightarrow> Some (Inr (s2,
                            jt2[j := cmp (jt2 ! unat (counter (?s1 p))) (jt2 ! j)], lg2 @ [ob])))
                     = Some (Inr st')"
              by (auto simp: Let_def bind_eq_Some_conv fun_upd_same simp del: fun_upd_apply)
            from r obtain s2 jt2 lg2 where
              r0': "r0 = Inr (s2, jt2, lg2)"
              and e: "st' = (s2, jt2[j := cmp (jt2 ! unat (counter (?s1 p))) (jt2 ! j)], lg2 @ [ob])"
              by (auto split: sum.splits)
            from IH[OF r0[unfolded r0']] have
              p: "cjt_post V0 js (?s1, jt, lg) (Enter (unat (counter (?s1 p)))) (s2, jt2, lg2)" .
            then have u2: "unvisited_only ?s1 s2" and l2: "logged ?s1 s2 lg lg2"
              and len: "length jt2 = length jt"
              and cl: "{x. Visited \<in> flags (?s1 x)} \<subseteq> V0 \<and> closed_up V0 None ?s1
                         \<longrightarrow> closed_up V0 None s2"
              by (simp_all add: cjt_post_def)
            have "Visited \<notin> flags (s2 ob)"
              using unvisited_only_Visited[OF u2, of ob] ob1 by blast
            moreover have "closed_up V0 None s2"
              if "{x. Visited \<in> flags (s x)} \<subseteq> V0" "closed_up V0 (Some ob) s"
              using cl sub[OF that(1)] closed_up_unvisit[OF that(2), of None] Some True by auto
            ultimately show ?thesis
              using unvisited_only_trans[OF uo u2] logged_after[of s ob s2 lg lg2, OF vis u2 l2] len
              by (simp add: cjt_post_def st e Loop)
          next
            case False
            then have j1: "Joint \<notin> flags (?s1 p)" by auto
            from body Loop vis Some j1 have
              "rec cmp ini js (?s1, jt[j := cmp (transformation (?s1 p)) (jt ! j)], lg @ [ob]) (Loop j p)
                 = Some (Inr st')"
              by (simp add: Let_def fun_upd_same del: fun_upd_apply)
            from IH[OF this] have
              p: "cjt_post V0 js (?s1, jt[j := cmp (transformation (?s1 p)) (jt ! j)], lg @ [ob])
                    (Loop j p) st'" .
            then have u2: "unvisited_only ?s1 s'" and l2: "logged ?s1 s' (lg @ [ob]) lg'"
              and len: "length jt' = length jt"
              and cl: "{x. Visited \<in> flags (?s1 x)} \<subseteq> V0 \<and> closed_up V0 (Some p) ?s1
                         \<longrightarrow> closed_up V0 None s'"
              by (simp_all add: cjt_post_def st')
            have "Visited \<notin> flags (s' ob)"
              using unvisited_only_Visited[OF u2, of ob] ob1 by blast
            moreover have "closed_up V0 None s'"
              if "{x. Visited \<in> flags (s x)} \<subseteq> V0" "closed_up V0 (Some ob) s"
              using cl sub[OF that(1)] closed_up_unvisit[OF that(2), of "Some p"] Some by auto
            ultimately show ?thesis
              using unvisited_only_trans[OF uo u2] logged_before[of s ob s' lg lg', OF vis u2 l2] len
              by (simp add: cjt_post_def st st' Loop)
          qed
        qed
      qed
    qed
    qed
  qed
  from this[OF assms] show ?thesis by simp
qed

lemma marks_added_refl: "marks_added s s"
  by (simp add: marks_added_def)

lemma marks_added_visit: "marks_added s0 s \<Longrightarrow> marks_added s0 (visit s it)"
  unfolding marks_added_def
  apply (intro allI)
  subgoal for n
    apply (erule_tac x=n in allE)
    apply (cases "n = it")
     apply auto
    done
  done

lemma marks_added_promote:
  "marks_added s0 s \<Longrightarrow> Joint \<notin> flags (s p) \<Longrightarrow> marks_added s0 (promote s p k)"
  unfolding marks_added_def
  apply (intro allI)
  subgoal for n
    apply (erule_tac x=n in allE)
    apply (cases "n = p")
     apply auto
    done
  done

lemma walk_frame:
  assumes "walk scene s objs js = Some (Inr (s', js'))"
  shows "marks_added s s' \<and> (\<exists>ex. js' = js @ ex)"
proof -
  let ?I = "\<lambda>t (os :: ptr list) ks. marks_added s t \<and> (\<exists>ex. ks = js @ ex)"
  have "?I s' [] js'"
  proof (rule walk_invariant[where I = ?I, OF assms], goal_cases)
    case 1
    show ?case by (simp add: marks_added_refl)
  next
    case (2 s it rest js)
    then show ?case by simp
  next
    case (3 s rest js)
    then show ?case using marks_added_visit by blast
  next
    case (4 t it rest ks p)
    then have nj: "Joint \<notin> flags (visit t it p)" by auto
    from 4 have "marks_added s (visit t it)" using marks_added_visit by blast
    then have a: "marks_added s (promote (visit t it) p (length ks))"
      using nj by (rule marks_added_promote)
    from 4 obtain ex where "ks = js @ ex" by blast
    then have "ks @ [p] = js @ (ex @ [p])" by simp
    then have b: "\<exists>ex. ks @ [p] = js @ ex" by blast
    show ?case by (rule conjI[OF a b])
  next
    case (5 s it rest js p)
    then show ?case using marks_added_visit by blast
  next
    case (6 s it rest js p)
    then show ?case using marks_added_visit by blast
  qed
  then show ?thesis by simp
qed

lemma unat_counter: "k < 0xFFFF \<Longrightarrow> unat (of_nat k :: 16 word) = k"
  by (simp add: unat_of_nat)

lemma counter_ne: "k < 0xFFFF \<Longrightarrow> (of_nat k :: 16 word) = 0xFFFF \<Longrightarrow> False"
proof -
  assume a: "k < 0xFFFF" "(of_nat k :: 16 word) = 0xFFFF"
  from a(2) have "unat (of_nat k :: 16 word) = unat (0xFFFF :: 16 word)" by simp
  with unat_counter[OF a(1)] a(1) show False by simp
qed

lemma indexed_visit: "indexed s js \<Longrightarrow> indexed (visit s it) js"
  unfolding indexed_def by auto

lemma indexed_promote:
  assumes "indexed s js" "Joint \<notin> flags (s p)" "length js < 0xFFFF"
  shows "indexed (promote s p (length js)) (js @ [p])"
  unfolding indexed_def
proof (intro conjI allI impI)
  fix n assume j: "Joint \<in> flags (promote s p (length js) n)"
  show "unat (counter (promote s p (length js) n)) < length (js @ [p])"
  proof (cases "n = p")
    case True
    then show ?thesis using unat_counter[OF assms(3)] by simp
  next
    case False
    with j assms(1) show ?thesis by (auto simp: indexed_def less_Suc_eq)
  qed
  show "(js @ [p]) ! unat (counter (promote s p (length js) n)) = n"
  proof (cases "n = p")
    case True
    then show ?thesis using unat_counter[OF assms(3)] by simp
  next
    case False
    with j assms(1) show ?thesis by (auto simp: indexed_def nth_append)
  qed
next
  fix n assume "counter (promote s p (length js) n) \<noteq> 0xFFFF"
  then show "Joint \<in> flags (promote s p (length js) n)"
    using assms(1) by (auto simp: indexed_def split: if_splits)
qed

lemma walk_indexed:
  assumes "walk scene s objs js = Some (Inr (s', js'))" "indexed s js"
  shows "indexed s' js'"
proof (rule walk_invariant[where I = "\<lambda>t os ks. indexed t ks", OF assms(1)], goal_cases)
  case 1
  show ?case by (rule assms(2))
next
  case (2 s it rest js)
  then show ?case by simp
next
  case (3 s rest js)
  then show ?case by (simp only: indexed_visit)
next
  case (4 t it rest ks p)
  then have nj: "Joint \<notin> flags (visit t it p)" by auto
  from 4 have "indexed (visit t it) ks" by (simp only: indexed_visit)
  then show ?case using nj 4(6) by (rule indexed_promote)
next
  case (5 s it rest js p)
  then show ?case by (simp only: indexed_visit)
next
  case (6 s it rest js p)
  then show ?case by (simp only: indexed_visit)
qed

lemma covered_mono:
  assumes "covered s v" "\<And>x. parent (s' x) = parent (s x)" "\<And>x. flags (s x) \<subseteq> flags (s' x)"
  shows "covered s' v"
  using assms(1)
proof (induction rule: covered.induct)
  case (joint v)
  then show ?case using assms(3)[of v] by (auto intro: covered.joint)
next
  case (above c v)
  show ?case
    by (rule covered.above[OF above.IH]) (use above.hyps assms(2)[of c] assms(3)[of c] in auto)
qed

lemma covered_visit: "covered s v \<Longrightarrow> covered (visit s it) v"
  by (erule covered_mono) auto

lemma covered_promote: "covered s v \<Longrightarrow> covered (promote s p k) v"
  by (erule covered_mono) auto

lemma all_covered_visit:
  assumes "all_covered s (it # rest)"
  shows "all_covered (visit s it) rest"
  unfolding all_covered_def
proof (intro conjI allI impI ballI)
  fix v assume "Visited \<in> flags (visit s it v)"
  then have "v = it \<or> Visited \<in> flags (s v)" by (auto split: if_splits)
  then have "covered s v" using assms by (auto simp: all_covered_def)
  then show "covered (visit s it) v" by (rule covered_visit)
next
  fix ob assume "ob \<in> set rest"
  then have "covered s ob" using assms by (auto simp: all_covered_def)
  then show "covered (visit s it) ob" by (rule covered_visit)
qed

lemma all_covered_promote: "all_covered s objs \<Longrightarrow> all_covered (promote s p k) objs"
  unfolding all_covered_def
proof (intro conjI allI impI ballI)
  fix v assume a: "(\<forall>v. Visited \<in> flags (s v) \<longrightarrow> covered s v) \<and> (\<forall>ob\<in>set objs. covered s ob)"
    and "Visited \<in> flags (promote s p k v)"
  then have "Visited \<in> flags (s v)" by (auto split: if_splits)
  with a have "covered s v" by blast
  then show "covered (promote s p k) v" by (rule covered_promote)
next
  fix ob assume a: "(\<forall>v. Visited \<in> flags (s v) \<longrightarrow> covered s v) \<and> (\<forall>ob\<in>set objs. covered s ob)"
    and "ob \<in> set objs"
  then have "covered s ob" by blast
  then show "covered (promote s p k) ob" by (rule covered_promote)
qed

lemma all_covered_climb:
  assumes "all_covered s (it # rest)" "parent (s it) = Some p"
  shows "all_covered (visit s it) (p # rest)"
proof -
  have a: "all_covered (visit s it) rest" by (rule all_covered_visit[OF assms(1)])
  have "covered s it" using assms(1) by (simp add: all_covered_def)
  then have "covered (visit s it) it" by (rule covered_visit)
  then have "covered (visit s it) p"
    by (rule covered.above) (use assms(2) in auto)
  with a show ?thesis by (simp add: all_covered_def)
qed

lemma walk_covered:
  assumes "walk scene s objs js = Some (Inr (s', js'))" "all_covered s objs"
  shows "\<forall>v. Visited \<in> flags (s' v) \<longrightarrow> covered s' v"
proof -
  have "all_covered s' []"
  proof (rule walk_invariant[where I = "\<lambda>t os ks. all_covered t os", OF assms(1)], goal_cases)
    case 1
    show ?case by (rule assms(2))
  next
    case (2 s it rest js)
    then show ?case by (simp add: all_covered_def)
  next
    case (3 s rest js)
    then show ?case by (simp only: all_covered_visit)
  next
    case (4 t it rest ks p)
    from 4(1) have "all_covered (visit t it) rest" by (rule all_covered_visit)
    then show ?case by (rule all_covered_promote)
  next
    case (5 s it rest js p)
    then show ?case by (simp only: all_covered_visit)
  next
    case (6 s it rest js p)
    then show ?case by (simp only: all_covered_climb)
  qed
  then show ?thesis by (simp add: all_covered_def)
qed

lemma ascend_same_parents:
  "(\<And>x. parent (s' x) = parent (s x)) \<Longrightarrow> ascend s' k n = ascend s k n"
  by (induction k arbitrary: n) (simp_all split: option.splits)

lemma ascend_Suc_end:
  "ascend s k n = Some v \<Longrightarrow> parent (s v) = Some p \<Longrightarrow> ascend s (Suc k) n = Some p"
proof (induction k arbitrary: n)
  case 0
  then show ?case by simp
next
  case (Suc k)
  from Suc.prems(1) obtain q where q: "parent (s n) = Some q" "ascend s k q = Some v"
    by (auto split: option.splits)
  from Suc.IH[OF q(2) Suc.prems(2)] q(1) show ?case by simp
qed

lemma paths_up_self: "t \<in> T \<Longrightarrow> t \<in> paths_up s T"
  unfolding paths_up_def ancestor_or_self_def
  by (auto intro!: bexI[of _ t] exI[of _ 0])

lemma paths_up_parent: "v \<in> paths_up s T \<Longrightarrow> parent (s v) = Some p \<Longrightarrow> p \<in> paths_up s T"
  unfolding paths_up_def ancestor_or_self_def
  using ascend_Suc_end by fast

lemma visited_visit: "{v. Visited \<in> flags (visit s it v)} = insert it {v. Visited \<in> flags (s v)}"
  by auto

lemma visited_promote: "{v. Visited \<in> flags (promote s p k v)} = {v. Visited \<in> flags (s v)}"
  by auto

lemma walk_paths_skip:
  "walk_paths s0 T s (it # rest) \<Longrightarrow> Visited \<in> flags (s it) \<Longrightarrow> walk_paths s0 T s rest"
  unfolding walk_paths_def by (auto; blast)

lemma walk_paths_drop:
  assumes "walk_paths s0 T s (it # rest)"
    and "\<And>v. parent (s it) = Some v \<Longrightarrow> Visited \<in> flags (visit s it v) \<or> Joint \<in> flags (s v)"
  shows "walk_paths s0 T (visit s it) rest"
  unfolding walk_paths_def
proof (intro conjI allI impI ballI)
  note a = assms(1)[unfolded walk_paths_def]
  show "parent (visit s it n) = parent (s0 n)" for n using a by simp
  show "finite {v. Visited \<in> flags (visit s it v)}" using a by (simp only: visited_visit finite_insert)
  show "v \<in> paths_up s0 T" if "Visited \<in> flags (visit s it v)" for v
    using that a by (auto split: if_splits)
  show "set rest \<subseteq> paths_up s0 T" using a by auto
  show "Visited \<in> flags (visit s it v) \<or> v \<in> set rest"
    if "Visited \<in> flags (visit s it c) \<and> parent (visit s it c) = Some v" for c v
  proof (cases "c = it")
    case True
    with that have p: "parent (s it) = Some v" by simp
    from assms(2)[OF p] show ?thesis
    proof
      assume "Visited \<in> flags (visit s it v)" then show ?thesis ..
    next
      assume j: "Joint \<in> flags (s v)"
      show ?thesis
      proof (cases "Visited \<in> flags (visit s it v)")
        case True then show ?thesis ..
      next
        case False
        then have "v \<noteq> it" "Visited \<notin> flags (s v)" by (auto split: if_splits)
        with j a have "v \<in> set rest" by auto
        then show ?thesis ..
      qed
    qed
  next
    case False
    with that have "Visited \<in> flags (s c)" "parent (s c) = Some v" by auto
    with a have "Visited \<in> flags (s v) \<or> v \<in> set (it # rest)" by blast
    then show ?thesis by auto
  qed
  show "n \<in> set rest" if "Joint \<in> flags (visit s it n) \<and> Visited \<notin> flags (visit s it n)" for n
  proof -
    from that have "n \<noteq> it" "Joint \<in> flags (s n)" "Visited \<notin> flags (s n)"
      by (auto split: if_splits)
    with a show ?thesis by auto
  qed
  show "Joint \<in> flags (visit s it t)" if "t \<in> T" for t using that a by auto
qed

lemma walk_paths_promote:
  assumes "walk_paths s0 T s objs" "Visited \<in> flags (s p)"
  shows "walk_paths s0 T (promote s p k) objs"
  unfolding walk_paths_def
proof (intro conjI allI impI ballI)
  note a = assms(1)[unfolded walk_paths_def]
  show "parent (promote s p k n) = parent (s0 n)" for n using a by simp
  show "finite {v. Visited \<in> flags (promote s p k v)}" using a by (simp only: visited_promote)
  show "v \<in> paths_up s0 T" if "Visited \<in> flags (promote s p k v)" for v
    using that a by (auto split: if_splits)
  show "set objs \<subseteq> paths_up s0 T" using a by auto
  show "Visited \<in> flags (promote s p k v) \<or> v \<in> set objs"
    if "Visited \<in> flags (promote s p k c) \<and> parent (promote s p k c) = Some v" for c v
  proof -
    from that have "Visited \<in> flags (s c)" "parent (s c) = Some v" by (auto split: if_splits)
    with a have "Visited \<in> flags (s v) \<or> v \<in> set objs" by blast
    then show ?thesis by auto
  qed
  show "n \<in> set objs" if "Joint \<in> flags (promote s p k n) \<and> Visited \<notin> flags (promote s p k n)" for n
  proof -
    from that assms(2) have "Joint \<in> flags (s n)" "Visited \<notin> flags (s n)"
      by (auto split: if_splits)
    with a show ?thesis by auto
  qed
  show "Joint \<in> flags (promote s p k t)" if "t \<in> T" for t using that a by auto
qed

lemma walk_paths_climb:
  assumes "walk_paths s0 T s (it # rest)" "parent (s it) = Some p"
  shows "walk_paths s0 T (visit s it) (p # rest)"
  unfolding walk_paths_def
proof (intro conjI allI impI ballI)
  note a = assms(1)[unfolded walk_paths_def]
  have itA: "it \<in> paths_up s0 T" using a by simp
  have "parent (s0 it) = Some p" using a assms(2) by simp
  from paths_up_parent[OF itA this] have pA: "p \<in> paths_up s0 T" .
  show "parent (visit s it n) = parent (s0 n)" for n using a by simp
  show "finite {v. Visited \<in> flags (visit s it v)}" using a by (simp only: visited_visit finite_insert)
  show "v \<in> paths_up s0 T" if "Visited \<in> flags (visit s it v)" for v
    using that a by (auto split: if_splits)
  show "set (p # rest) \<subseteq> paths_up s0 T" using a pA by auto
  show "Visited \<in> flags (visit s it v) \<or> v \<in> set (p # rest)"
    if "Visited \<in> flags (visit s it c) \<and> parent (visit s it c) = Some v" for c v
  proof (cases "c = it")
    case True
    with that assms(2) show ?thesis by simp
  next
    case False
    with that have "Visited \<in> flags (s c)" "parent (s c) = Some v" by auto
    with a have "Visited \<in> flags (s v) \<or> v \<in> set (it # rest)" by blast
    then show ?thesis by auto
  qed
  show "n \<in> set (p # rest)"
    if "Joint \<in> flags (visit s it n) \<and> Visited \<notin> flags (visit s it n)" for n
  proof -
    from that have "n \<noteq> it" "Joint \<in> flags (s n)" "Visited \<notin> flags (s n)"
      by (auto split: if_splits)
    with a show ?thesis by auto
  qed
  show "Joint \<in> flags (visit s it t)" if "t \<in> T" for t using that a by auto
qed

lemma walk_walk_paths:
  assumes "walk scene s objs js = Some (Inr (s', js'))" "walk_paths s0 T s objs"
  shows "walk_paths s0 T s' []"
proof (rule walk_invariant[where I = "\<lambda>t os ks. walk_paths s0 T t os", OF assms(1)], goal_cases)
  case 1
  show ?case by (rule assms(2))
next
  case (2 s it rest js)
  then show ?case by (simp only: walk_paths_skip)
next
  case (3 s rest js)
  then show ?case by (intro walk_paths_drop) auto
next
  case (4 t it rest ks p)
  from 4(1) have "walk_paths s0 T (visit t it) rest"
    by (rule walk_paths_drop) (use 4 in auto)
  then show ?case using 4(4) by (rule walk_paths_promote)
next
  case (5 s it rest js p)
  from 5(1) show ?case by (rule walk_paths_drop) (use 5 in auto)
next
  case (6 s it rest js p)
  then show ?case by (simp only: walk_paths_climb)
qed

lemma walk_paths_final:
  assumes "walk_paths s0 T s []"
  shows "{v. Visited \<in> flags (s v)} = paths_up s0 T"
proof -
  note a = assms[unfolded walk_paths_def]
  have up: "Visited \<in> flags (s v)" if "ascend s0 k t = Some v" "t \<in> T" for k t v
    using that
  proof (induction k arbitrary: v)
    case 0
    then have "v = t" by simp
    with a 0(2) show ?case by auto
  next
    case (Suc k)
    have "\<exists>u. ascend s0 k t = Some u \<and> parent (s0 u) = Some v"
      using Suc.prems(1)
    proof (induction k arbitrary: t)
      case 0
      then show ?case by (auto split: option.splits)
    next
      case (Suc k)
      then show ?case by (auto split: option.splits)
    qed
    then obtain u where u: "ascend s0 k t = Some u" "parent (s0 u) = Some v" by blast
    from Suc.IH[OF u(1) Suc.prems(2)] have "Visited \<in> flags (s u)" .
    moreover have "parent (s u) = Some v" using a u(2) by simp
    ultimately show ?case using a by auto
  qed
  show ?thesis
  proof (intro equalityI subsetI)
    fix v assume "v \<in> {v. Visited \<in> flags (s v)}"
    with a show "v \<in> paths_up s0 T" by simp
  next
    fix v assume "v \<in> paths_up s0 T"
    then show "v \<in> {v. Visited \<in> flags (s v)}"
      using up by (auto simp: paths_up_def ancestor_or_self_def)
  qed
qed

lemma first_index_less: "x \<in> set xs \<Longrightarrow> first_index xs x < length xs"
  by (induction xs) auto

lemma first_index_nth: "x \<in> set xs \<Longrightarrow> xs ! first_index xs x = x"
  by (induction xs) auto

lemma first_index_le: "i < length xs \<Longrightarrow> first_index xs (xs ! i) \<le> i"
proof (induction xs arbitrary: i)
  case Nil
  then show ?case by simp
next
  case (Cons y ys)
  then show ?case by (cases i) auto
qed

lemma markJoints_closed:
  "i + length objs \<le> 0xFFFF \<Longrightarrow>
   markJoints s objs i =
     (\<lambda>n. if n \<in> set objs \<and> counter (s n) = 0xFFFF
          then (s n)\<lparr>counter := of_nat (i + first_index objs n),
                      flags := insert Joint (flags (s n))\<rparr>
          else s n)"
proof (induction objs arbitrary: s i)
  case Nil
  show ?case by simp
next
  case (Cons ob objs)
  have i: "i < 0xFFFF" using Cons.prems by simp
  have ne: "(of_nat i :: 16 word) \<noteq> 0xFFFF" using counter_ne[OF i] by blast
  have le: "Suc i + length objs \<le> 0xFFFF" using Cons.prems by simp
  show ?case
  proof (cases "counter (s ob) = 0xFFFF")
    case False
    then show ?thesis
      by (simp add: Cons.IH[OF le]) (rule ext, auto)
  next
    case True
    then show ?thesis
      by (simp add: Cons.IH[OF le] ne) (rule ext, auto simp: ne)
  qed
qed

lemma cleanJoints_closed:
  "cleanJoints s js =
     (\<lambda>x. if x \<in> set js then (s x)\<lparr>flags := flags (s x) - {Joint}, counter := 0xFFFF\<rparr> else s x)"
proof (induction js arbitrary: s)
  case Nil
  show ?case by simp
next
  case (Cons j js)
  show ?case by (simp add: Cons.IH) (rule ext, auto)
qed

lemma computeJoints_post:
  "computeJoints compose initial js (s, jt, lg) ns = Some (Inr (s', jt', lg')) \<Longrightarrow>
     unvisited_only s s' \<and> length jt' = length jt \<and> logged s s' lg lg' \<and>
     (\<forall>i\<in>set ns. Visited \<notin> flags (s' (js ! i))) \<and>
     ({x. Visited \<in> flags (s x)} \<subseteq> V0 \<and> closed_up V0 None s \<longrightarrow> closed_up V0 None s')"
proof (induction ns arbitrary: s jt lg)
  case Nil
  then show ?case by (simp add: unvisited_only_refl logged_refl)
next
  case (Cons i ns)
  from Cons.prems obtain s1 jt1 lg1 where
    a: "cjt_rec compose initial js (s, jt, lg) (Enter i) = Some (Inr (s1, jt1, lg1))"
    and b: "computeJoints compose initial js (s1, jt1, lg1) ns = Some (Inr (s', jt', lg'))"
    by (auto simp: computeJointTransformation_def split: option.splits sum.splits)
  from cjt_rec_post[OF a, of V0] have p:
    "unvisited_only s s1" "length jt1 = length jt" "logged s s1 lg lg1"
    "Visited \<notin> flags (s1 (js ! i))"
    "{x. Visited \<in> flags (s x)} \<subseteq> V0 \<and> closed_up V0 None s \<longrightarrow> closed_up V0 None s1"
    by (simp_all add: cjt_post_def)
  from Cons.IH[OF b] have q:
    "unvisited_only s1 s'" "length jt' = length jt1" "logged s1 s' lg1 lg'"
    "\<forall>i\<in>set ns. Visited \<notin> flags (s' (js ! i))"
    "{x. Visited \<in> flags (s1 x)} \<subseteq> V0 \<and> closed_up V0 None s1 \<longrightarrow> closed_up V0 None s'"
    by simp_all
  have "Visited \<notin> flags (s' (js ! i))"
    using unvisited_only_Visited[OF q(1)] p(4) by blast
  moreover have "{x. Visited \<in> flags (s1 x)} \<subseteq> V0" if "{x. Visited \<in> flags (s x)} \<subseteq> V0"
    using that unvisited_only_Visited[OF p(1)] by blast
  ultimately show ?case
    using unvisited_only_trans[OF p(1) q(1)] logged_trans[OF p(1) q(1) p(3) q(3)] p q
    by auto
qed

lemma copyDuplicates_result:
  fixes f :: "nat \<Rightarrow> nat" and s :: "'t store" and js :: "ptr list"
  defines "f \<equiv> \<lambda>i. unat (counter (s (js ! i)))"
  assumes "copyDuplicates s js jt [m..<n] = Inr jt'"
    and "\<forall>i<n. f i \<le> i \<and> f (f i) = f i"
    and "length jt = length jt0"
    and "\<forall>i<m. jt ! i = jt0 ! f i" and "\<forall>i\<ge>m. jt ! i = jt0 ! i"
  shows "length jt' = length jt0 \<and> (\<forall>i<n. i < length jt0 \<longrightarrow> jt' ! i = jt0 ! f i)"
  using assms(2,4,5,6)
proof (induction "n - m" arbitrary: m jt)
  case 0
  then have "[m..<n] = []" by simp
  with 0 show ?case by auto
next
  case (Suc k)
  then have mn: "m < n" by simp
  then have upt: "[m..<n] = m # [Suc m..<n]" by (simp add: upt_conv_Cons)
  have k: "k = n - Suc m" using Suc.hyps(2) by simp
  have fm: "f m \<le> m" "f (f m) = f m" using assms(3) mn by auto
  note run = Suc.prems(1)[unfolded upt]
  show ?case
  proof (cases "f m = m")
    case True
    with run have r: "copyDuplicates s js jt [Suc m..<n] = Inr jt'"
      by (auto simp: f_def split: if_splits)
    have "\<forall>i<Suc m. jt ! i = jt0 ! f i"
      using Suc.prems(3,4) True by (auto simp: less_Suc_eq)
    moreover have "\<forall>i\<ge>Suc m. jt ! i = jt0 ! i" using Suc.prems(4) by auto
    ultimately show ?thesis using Suc.hyps(1)[OF k r Suc.prems(2)] by blast
  next
    case False
    with run have r: "copyDuplicates s js (jt[m := jt ! f m]) [Suc m..<n] = Inr jt'"
      and ml: "m < length jt"
      by (auto simp: f_def split: if_splits)
    have lt: "f m < m" using fm(1) False by simp
    have "jt ! f m = jt0 ! f m" using Suc.prems(3) lt fm(2) by auto
    then have "\<forall>i<Suc m. jt[m := jt ! f m] ! i = jt0 ! f i"
      using Suc.prems(3) ml by (auto simp: less_Suc_eq nth_list_update)
    moreover have "\<forall>i\<ge>Suc m. jt[m := jt ! f m] ! i = jt0 ! i"
      using Suc.prems(4) by (auto simp: nth_list_update)
    moreover have "length (jt[m := jt ! f m]) = length jt0" using Suc.prems(2) by simp
    ultimately show ?thesis using Suc.hyps(1)[OF k r] by blast
  qed
qed

lemma transformations_Inr:
  assumes "transformations compose dflt s this objects initial = Some (Inr (res, s', composed))"
  obtains s2 js s3 jt jt' where
    "length objects < 0xFFFF"
    "walk this (markJoints s objects 0) objects objects = Some (Inr (s2, js))"
    "computeJoints compose initial js (s2, replicate (length js) dflt, []) [0..<length js]
       = Some (Inr (s3, jt, composed))"
    "copyDuplicates s3 js jt [0..<length objects] = Inr jt'"
    "res = take (length objects) jt'" "s' = cleanJoints s3 js"
proof -
  from assms have len: "length objects < 0xFFFF"
    by (auto simp: transformations_def split: if_splits)
  from assms len obtain w where
    w: "walk this (markJoints s objects 0) objects objects = Some w"
    and r1: "(case w of Inl e \<Rightarrow> Some (Inl e)
             | Inr (s2, jointObjects) \<Rightarrow>
                 Option.bind
                   (computeJoints compose initial jointObjects
                      (s2, replicate (length jointObjects) dflt, []) [0..<length jointObjects])
                   (\<lambda>c. case c of
                      Inl e \<Rightarrow> Some (Inl e)
                    | Inr (s3, jointTransformations, composed) \<Rightarrow>
                        (case copyDuplicates s3 jointObjects jointTransformations
                                [0..<length objects] of
                           Inl e \<Rightarrow> Some (Inl (e, s3))
                         | Inr jointTransformations' \<Rightarrow>
                             Some (Inr (take (length objects) jointTransformations',
                                        cleanJoints s3 jointObjects, composed)))))
            = Some (Inr (res, s', composed))"
    by (auto simp: transformations_def Let_def bind_eq_Some_conv split: if_splits)
  from r1 obtain s2 js where w': "w = Inr (s2, js)" by (cases w) auto
  from r1[unfolded w'] obtain c where
    c: "computeJoints compose initial js (s2, replicate (length js) dflt, []) [0..<length js] = Some c"
    and r2: "(case c of
                Inl e \<Rightarrow> Some (Inl e)
              | Inr (s3, jointTransformations, composed) \<Rightarrow>
                  (case copyDuplicates s3 js jointTransformations [0..<length objects] of
                     Inl e \<Rightarrow> Some (Inl (e, s3))
                   | Inr jointTransformations' \<Rightarrow>
                       Some (Inr (take (length objects) jointTransformations',
                                  cleanJoints s3 js, composed))))
            = Some (Inr (res, s', composed))"
    by (auto simp: bind_eq_Some_conv)
  from r2 obtain s3 jt cmp where c': "c = Inr (s3, jt, cmp)" by (cases c) auto
  from r2[unfolded c'] obtain jt' where
    d: "copyDuplicates s3 js jt [0..<length objects] = Inr jt'"
    and e: "res = take (length objects) jt'" "s' = cleanJoints s3 js" "cmp = composed"
    by (auto split: sum.splits)
  show thesis
    by (rule that[OF len w[unfolded w'] c[unfolded c' e(3)] d e(1,2)])
qed

lemma marked_props:
  assumes "unmarked s" "length objects < 0xFFFF"
  defines "s1 \<equiv> markJoints s objects 0"
  shows "marks_added s s1" "indexed s1 objects" "\<forall>n. Visited \<notin> flags (s1 n)"
    "\<forall>n. Joint \<in> flags (s1 n) \<longleftrightarrow> n \<in> set objects"
    "\<forall>t\<in>set objects. unat (counter (s1 t)) = first_index objects t"
proof -
  have le: "0 + length objects \<le> 0xFFFF" using assms(2) by simp
  note cl = markJoints_closed[OF le, of s]
  have u: "Visited \<notin> flags (s n)" "Joint \<notin> flags (s n)" "counter (s n) = 0xFFFF" for n
    using assms(1) by (simp_all add: unmarked_def)
  have fi: "unat (of_nat (first_index objects n) :: 16 word) = first_index objects n"
    if "n \<in> set objects" for n
    using first_index_less[OF that] assms(2) by (intro unat_counter) simp
  show "marks_added s s1" unfolding s1_def cl marks_added_def by (auto simp: u)
  show "indexed s1 objects" unfolding s1_def cl indexed_def
    by (auto simp: u fi first_index_less first_index_nth)
  show "\<forall>n. Visited \<notin> flags (s1 n)" unfolding s1_def cl by (auto simp: u)
  show "\<forall>n. Joint \<in> flags (s1 n) \<longleftrightarrow> n \<in> set objects" unfolding s1_def cl by (auto simp: u)
  show "\<forall>t\<in>set objects. unat (counter (s1 t)) = first_index objects t"
    unfolding s1_def cl by (auto simp: u fi)
qed

lemma all_cleared:
  assumes cov: "\<forall>v. Visited \<in> flags (s2 v) \<longrightarrow> covered s2 v"
    and idx: "indexed s2 js"
    and run: "computeJoints compose initial js (s2, jt0, lg0) [0..<length js] = Some (Inr (s3, jt, lg))"
  shows "Visited \<notin> flags (s3 v)"
proof -
  define V0 where "V0 = {x. Visited \<in> flags (s2 x)}"
  have c0: "closed_up V0 None s2" by (auto simp: closed_up_def V0_def)
  from computeJoints_post[OF run, of V0] c0 have
    uo: "unvisited_only s2 s3" and js: "\<forall>i<length js. Visited \<notin> flags (s3 (js ! i))"
    and cl: "closed_up V0 None s3"
    by (auto simp: V0_def)
  have jcl: "Visited \<notin> flags (s3 x)" if "Joint \<in> flags (s2 x)" for x
    using idx that js unfolding indexed_def by metis
  have "Visited \<in> flags (s2 v) \<longrightarrow> Visited \<notin> flags (s3 v)" if "covered s2 v" for v
    using that
  proof (induction rule: covered.induct)
    case (joint v)
    then show ?case using jcl by blast
  next
    case (above c v)
    show ?case
    proof (cases "Joint \<in> flags (s2 v)")
      case True
      then show ?thesis using jcl by blast
    next
      case False
      have "Visited \<notin> flags (s3 c)" using above by blast
      moreover have "parent (s3 c) = Some v" "Joint \<notin> flags (s3 v)"
        using above.hyps(3) False unvisited_only_fields[OF uo] by auto
      moreover have "c \<in> V0" using above.hyps(2) by (simp add: V0_def)
      ultimately show ?thesis using cl unfolding closed_up_def by blast
    qed
  qed
  then show ?thesis using cov unvisited_only_Visited[OF uo, of v] by blast
qed

lemma paths_up_cong:
  "(\<And>x. parent (s' x) = parent (s x)) \<Longrightarrow> paths_up s' T = paths_up s T"
  unfolding paths_up_def ancestor_or_self_def
  using ascend_same_parents[of s' s] by simp

lemma solver_phases:
  assumes um: "unmarked s"
    and run: "transformations compose dflt s this objects initial = Some (Inr (res, s', composed))"
  obtains s2 js s3 jt jt' ex where
    "length objects < 0xFFFF"
    "marks_added (markJoints s objects 0) s2" "js = objects @ ex" "indexed s2 js"
    "{v. Visited \<in> flags (s2 v)} = paths_up s (set objects)"
    "unvisited_only s2 s3" "\<forall>v. Visited \<notin> flags (s3 v)"
    "logged s2 s3 [] composed" "length jt = length js"
    "copyDuplicates s3 js jt [0..<length objects] = Inr jt'"
    "res = take (length objects) jt'" "s' = cleanJoints s3 js"
proof -
  from transformations_Inr[OF run] obtain s2 js s3 jt jt' where
    len: "length objects < 0xFFFF"
    and w: "walk this (markJoints s objects 0) objects objects = Some (Inr (s2, js))"
    and c: "computeJoints compose initial js (s2, replicate (length js) dflt, []) [0..<length js]
       = Some (Inr (s3, jt, composed))"
    and d: "copyDuplicates s3 js jt [0..<length objects] = Inr jt'"
    and e: "res = take (length objects) jt'" "s' = cleanJoints s3 js"
    by blast
  let ?s1 = "markJoints s objects 0"
  note m = marked_props[OF um len]
  from walk_frame[OF w] obtain ex where f: "marks_added ?s1 s2" and js: "js = objects @ ex"
    by blast
  have idx: "indexed s2 js" by (rule walk_indexed[OF w m(2)])
  have "all_covered ?s1 objects"
    using m(3,4) by (auto simp: all_covered_def intro: covered.joint)
  from walk_covered[OF w this] have cov: "\<forall>v. Visited \<in> flags (s2 v) \<longrightarrow> covered s2 v" .
  have "walk_paths ?s1 (set objects) ?s1 objects"
    using m(3,4) by (auto simp: walk_paths_def paths_up_self)
  from walk_paths_final[OF walk_walk_paths[OF w this]]
  have "{v. Visited \<in> flags (s2 v)} = paths_up ?s1 (set objects)" .
  moreover have "paths_up ?s1 (set objects) = paths_up s (set objects)"
    by (rule paths_up_cong) (use m(1) in \<open>simp add: marks_added_def\<close>)
  ultimately have vis: "{v. Visited \<in> flags (s2 v)} = paths_up s (set objects)" by simp
  from computeJoints_post[OF c, of UNIV] have
    uo: "unvisited_only s2 s3" and lg: "logged s2 s3 [] composed" and l: "length jt = length js"
    by auto
  have cl: "\<forall>v. Visited \<notin> flags (s3 v)" using all_cleared[OF cov idx c] by blast
  show thesis by (rule that[OF len f js idx vis uo cl lg l d e])
qed

lemma transformations_Inr_restores:
  assumes "unmarked s"
    and "transformations compose dflt s this objects initial = Some (Inr (res, s', composed))"
  shows "s' = s"
proof (rule solver_phases[OF assms], goal_cases)
  case (1 s2 js s3 jt jt' ex)
  note len = 1(1) and f = 1(2) and idx = 1(4) and uo = 1(6) and cl = 1(7) and e = 1(12)
  note m = marked_props[OF assms(1) len]
  have u: "Visited \<notin> flags (s x)" "Joint \<notin> flags (s x)" "counter (s x) = 0xFFFF" for x
    using assms(1) by (simp_all add: unmarked_def)
  have "s' x = s x" for x
  proof -
    note f1 = m(1)[unfolded marks_added_def, rule_format, of x]
    note f2 = f[unfolded marks_added_def, rule_format, of x]
    note f3 = unvisited_only_fields[OF uo, of x]
    have nj: "Joint \<in> flags (s2 x) \<Longrightarrow> x \<in> set js"
      using idx unfolding indexed_def by (metis nth_mem)
    have nc: "x \<notin> set js \<Longrightarrow> counter (s2 x) = 0xFFFF"
      using idx nj unfolding indexed_def by blast
    have fl: "flags (s' x) = flags (s3 x) - {Joint}"
      using nj f3(8) by (auto simp: e cleanJoints_closed)
    have "flags (s3 x) - {Joint} = flags (s x)"
      using f1 f2 f3(7) cl[rule_format, of x] u[of x] by blast
    with fl have 1: "flags (s' x) = flags (s x)" by simp
    have 2: "counter (s' x) = counter (s x)"
      using nc f3(5) u(3)[of x] by (auto simp: e cleanJoints_closed)
    have 3: "parent (s' x) = parent (s x)" "children (s' x) = children (s x)"
      "features (s' x) = features (s x)" "transformation (s' x) = transformation (s x)"
      "isScene (s' x) = isScene (s x)"
      using f1 f2 f3 by (auto simp: e cleanJoints_closed)
    show ?thesis by (rule object.equality) (simp_all add: 1 2 3)
  qed
  then show "s' = s" by (rule ext)
qed

lemma ascend_path:
  "ascend s k n = Some r \<Longrightarrow> parent (s r) = None \<Longrightarrow>
     \<exists>rest. is_path s (n # rest) \<and> last (n # rest) = r"
proof (induction k arbitrary: n)
  case 0
  then have "is_path s (n # [])" "last (n # []) = r" by simp_all
  then show ?case by blast
next
  case (Suc k)
  from Suc.prems(1) obtain q where q: "parent (s n) = Some q" "ascend s k q = Some r"
    by (auto split: option.splits)
  from Suc.IH[OF q(2) Suc.prems(2)] obtain rest where "is_path s (q # rest)" "last (q # rest) = r"
    by blast
  with q(1) have "is_path s (n # q # rest)" "last (n # q # rest) = r" by simp_all
  then show ?case by blast
qed

lemma is_path_cong: "(\<And>x. parent (s' x) = parent (s x)) \<Longrightarrow> is_path s' p = is_path s p"
  by (induction s p rule: is_path.induct) simp_all

lemma is_path_succ:
  "is_path s p \<Longrightarrow> x \<in> set p \<Longrightarrow> parent (s x) = Some q \<Longrightarrow> q \<in> set (tl p)"
  by (induction s p rule: is_path.induct) auto

lemma is_path_distinct: "is_path s p \<Longrightarrow> distinct p"
proof (induction s p rule: is_path.induct)
  case (3 s x y rest)
  then have d: "distinct (y # rest)" and p: "parent (s x) = Some y" "is_path s (y # rest)"
    by simp_all
  have "x \<notin> set (y # rest)"
  proof
    assume "x \<in> set (y # rest)"
    from is_path_succ[OF p(2) this p(1)] d show False by simp
  qed
  with d show ?case by simp
qed simp_all

lemma absoluteTransformation_path:
  "is_path s (n # rest) \<Longrightarrow>
     absoluteTransformation compose s n = Some (abs_from compose s n rest)"
proof (induction rest arbitrary: n)
  case Nil
  then show ?case by (subst absoluteTransformation.simps) simp
next
  case (Cons p rest)
  then have "parent (s n) = Some p" "is_path s (p # rest)" by simp_all
  with Cons.IH[of p] show ?case by (subst absoluteTransformation.simps) simp
qed

lemma compose_up_abs:
  assumes assoc: "\<forall>a b c. compose (compose a b) c = compose a (compose b c)"
  shows "compose_up compose initial s (p # rest) a
           = compose initial (compose (abs_from compose s p rest) a)"
proof (induction rest arbitrary: p a)
  case Nil
  show ?case by simp
next
  case (Cons q rest)
  have "compose_up compose initial s (p # q # rest) a
          = compose_up compose initial s (q # rest) (compose (transformation (s p)) a)"
    by simp
  also have "\<dots> = compose initial (compose (abs_from compose s q rest)
                       (compose (transformation (s p)) a))"
    by (rule Cons.IH)
  also have "\<dots> = compose initial (compose (abs_from compose s p (q # rest)) a)"
    using assoc by simp
  finally show ?case .
qed

lemma visited_on_Cons: "visited_on (set rest) (visit s x) = visited_on (set (x # rest)) s"
  by (rule ext) (auto simp: visited_on_def)

lemma unvisited_on_Cons: "unvisited_on (set rest) (unvisit s x) = unvisited_on (set (x # rest)) s"
  by (rule ext) (auto simp: unvisited_on_def)

lemma walk_path:
  "is_path s (it # rest) \<Longrightarrow> last (it # rest) = scene \<Longrightarrow>
   \<forall>x\<in>set (it # rest). Visited \<notin> flags (s x) \<Longrightarrow> \<forall>x\<in>set rest. Joint \<notin> flags (s x) \<Longrightarrow>
   walk scene s (it # todo) js = walk scene (visited_on (set (it # rest)) s) todo js"
proof (induction rest arbitrary: it s)
  case Nil
  then have "it = scene" "parent (s it) = None" "Visited \<notin> flags (s it)" by simp_all
  moreover have e: "visited_on (set (it # [])) s = visit s it"
    by (rule ext) (simp add: visited_on_def)
  ultimately show ?case unfolding e
    by (subst walk_Cons) simp
next
  case (Cons p rest)
  from Cons.prems(1) have par: "parent (s it) = Some p" and pa: "is_path s (p # rest)" by simp_all
  from is_path_distinct[OF Cons.prems(1)] have ne: "it \<noteq> p" "it \<notin> set rest" by auto
  have nv: "Visited \<notin> flags (s it)" "Visited \<notin> flags (s p)" "Joint \<notin> flags (s p)"
    using Cons.prems(3,4) by simp_all
  have step: "walk scene s (it # todo) js = walk scene (visit s it) (p # todo) js"
    using par ne(1) nv by (subst walk_Cons) simp
  have a: "is_path (visit s it) (p # rest)"
    using pa is_path_cong[of "visit s it" s "p # rest"] by simp
  have b: "last (p # rest) = scene" using Cons.prems(2) by simp
  have c: "\<forall>x\<in>set (p # rest). Visited \<notin> flags (visit s it x)"
    using Cons.prems(3) ne by auto
  have d: "\<forall>x\<in>set rest. Joint \<notin> flags (visit s it x)"
    using Cons.prems(4) ne by auto
  show ?case
    unfolding step Cons.IH[OF a b c d] visited_on_Cons ..
qed

lemma cjt_Loop:
  "cjt_rec compose initial js (s, jt, lg) (Loop j ob) =
     (if Visited \<notin> flags (s ob) then Some (Inl (InternalAssert, s))
      else
        (case parent (s ob) of
           None \<Rightarrow>
             if \<not> isScene (s ob) then Some (Inl (InternalAssert, unvisit s ob))
             else Some (Inr (unvisit s ob, jt[j := compose initial (jt ! j)], lg @ [ob]))
         | Some p \<Rightarrow>
             if Joint \<in> flags (unvisit s ob p) then
               Option.bind
                 (cjt_rec compose initial js (unvisit s ob, jt, lg)
                    (Enter (unat (counter (unvisit s ob p)))))
                 (\<lambda>r. case r of
                    Inl e \<Rightarrow> Some (Inl e)
                  | Inr (s2, jt2, lg2) \<Rightarrow>
                      Some (Inr (s2,
                        jt2[j := compose (jt2 ! unat (counter (unvisit s ob p))) (jt2 ! j)],
                        lg2 @ [ob])))
             else
               cjt_rec compose initial js
                 (unvisit s ob, jt[j := compose (transformation (unvisit s ob p)) (jt ! j)],
                  lg @ [ob])
                 (Loop j p)))"
  by (subst cjt_rec.simps) (simp add: Let_def)

lemma cjt_Enter:
  "cjt_rec compose initial js (s, jt, lg) (Enter j) =
     (if \<not> (j < length js \<and> j < length jt) then Some (Inl (OutOfRange, s))
      else if Visited \<notin> flags (s (js ! j)) then Some (Inr (s, jt, lg))
      else cjt_rec compose initial js (s, jt[j := transformation (s (js ! j))], lg)
             (Loop j (js ! j)))"
  by (subst cjt_rec.simps) simp

lemma cjt_loop_path:
  "is_path s (ob # rest) \<Longrightarrow> isScene (s (last (ob # rest))) \<Longrightarrow>
   \<forall>x\<in>set (ob # rest). Visited \<in> flags (s x) \<Longrightarrow> \<forall>x\<in>set rest. Joint \<notin> flags (s x) \<Longrightarrow>
   j < length jt \<Longrightarrow>
   cjt_rec compose initial js (s, jt, lg) (Loop j ob) =
     Some (Inr (unvisited_on (set (ob # rest)) s,
                jt[j := compose_up compose initial s rest (jt ! j)], lg @ ob # rest))"
proof (induction rest arbitrary: ob s jt lg)
  case Nil
  have e: "unvisited_on (set (ob # [])) s = unvisit s ob"
    by (rule ext) (simp add: unvisited_on_def)
  from Nil show ?case unfolding e by (subst cjt_Loop) simp
next
  case (Cons p rest)
  from Cons.prems(1) have par: "parent (s ob) = Some p" and pa: "is_path s (p # rest)"
    by simp_all
  from is_path_distinct[OF Cons.prems(1)] have ne: "ob \<noteq> p" "ob \<notin> set rest" by auto
  have v: "Visited \<in> flags (s ob)" "Joint \<notin> flags (s p)"
    using Cons.prems(3,4) by simp_all
  let ?s1 = "unvisit s ob"
  let ?jt1 = "jt[j := compose (transformation (s p)) (jt ! j)]"
  have step: "cjt_rec compose initial js (s, jt, lg) (Loop j ob)
                = cjt_rec compose initial js (?s1, ?jt1, lg @ [ob]) (Loop j p)"
    using par ne(1) v by (subst cjt_Loop) simp
  have a: "is_path ?s1 (p # rest)"
    using pa is_path_cong[of ?s1 s "p # rest"] by simp
  have "last (p # rest) \<noteq> ob" using ne last_in_set[of "p # rest"] by auto
  then have b: "isScene (?s1 (last (p # rest)))" using Cons.prems(2) by simp
  have c: "\<forall>x\<in>set (p # rest). Visited \<in> flags (?s1 x)"
    using Cons.prems(3) ne by auto
  have d: "\<forall>x\<in>set rest. Joint \<notin> flags (?s1 x)"
    using Cons.prems(4) ne by auto
  have l: "j < length ?jt1" using Cons.prems(5) by simp
  have cu: "compose_up compose initial ?s1 rest a = compose_up compose initial s rest a" for a
    using ne(2)
  proof (induction rest arbitrary: a)
    case Nil
    show ?case by simp
  next
    case (Cons q rest)
    then show ?case by simp
  qed
  show ?case
    unfolding step Cons.IH[OF a b c d l] unvisited_on_Cons
    using Cons.prems(5) by (simp add: cu)
qed

lemma abs_from_cong:
  "(\<And>x. transformation (s' x) = transformation (s x)) \<Longrightarrow>
     abs_from compose s' x p = abs_from compose s x p"
  by (induction p arbitrary: x) simp_all

lemma compose_up_cong:
  "(\<And>x. transformation (s' x) = transformation (s x)) \<Longrightarrow>
     compose_up compose initial s' p a = compose_up compose initial s p a"
  by (induction p arbitrary: a) simp_all

lemma sceneObject_scene: "isScene (s this) \<Longrightarrow> sceneObject s (Some this) = Some (Some this)"
  by (subst sceneObject.simps) simp

lemmas run_simps = transformations_def Let_def sceneObject.simps walk_Nil walk_Cons
  computeJointTransformation_def cjt_Enter cjt_Loop example2_def blank_def

lemma example_unmarked: "unmarked example2"
  by (simp add: unmarked_def example2_def blank_def)

lemma ex_run1:
  "\<exists>s'. transformations (@) [] example2 0 [2, 1, 2] [] =
     Some (Inr ([[0, 1, 2], [0, 1], [0, 1, 2]], s', [1, 0, 2]))"
  by (simp add: run_simps)

lemma ex_run2:
  "\<exists>s'. transformations (@) [] example2 0 [2, 3, 5] [] =
     Some (Inr ([[0, 1, 2], [0, 1, 3], [0, 5]], s', [0, 1, 2, 3, 5]))"
  by (simp add: run_simps)

lemma ex_run3:
  "\<exists>s'. transformations (@) [] example2 0 [4] [] = Some (Inl (NotSameTree, s')) \<and>
     Visited \<in> flags (s' 4) \<and> Joint \<in> flags (s' 4) \<and> counter (s' 4) = 0"
  by (simp add: run_simps)

lemma markJoints_skip: "\<forall>x\<in>set objs. counter (s x) \<noteq> 0xFFFF \<Longrightarrow> markJoints s objs i = s"
  by (induction objs arbitrary: i) simp_all

lemma walk_skip: "\<forall>x\<in>set objs. Visited \<in> flags (s x) \<Longrightarrow> walk scene s objs js = Some (Inr (s, js))"
  by (induction objs) (simp_all add: walk_Nil walk_Cons)

lemma computeJoints_skip:
  "\<forall>i\<in>set ns. i < length js \<and> i < length jt \<and> Visited \<notin> flags (s (js ! i)) \<Longrightarrow>
     computeJoints compose initial js (s, jt, lg) ns = Some (Inr (s, jt, lg))"
  by (induction ns) (simp_all add: computeJointTransformation_def cjt_Enter)

lemma copyDuplicates_ok:
  "\<forall>i\<in>set ns. i < length js \<and> i < length jt \<and> unat (counter (s (js ! i))) < length jt \<Longrightarrow>
     \<exists>jt'. copyDuplicates s js jt ns = Inr jt' \<and> length jt' = length jt"
proof (induction ns arbitrary: jt)
  case Nil
  show ?case by simp
next
  case (Cons i ns)
  show ?case
  proof (cases "unat (counter (s (js ! i))) = i")
    case True
    with Cons.IH[of jt] Cons.prems show ?thesis by simp
  next
    case False
    let ?jt = "jt[i := jt ! unat (counter (s (js ! i)))]"
    have "\<forall>i\<in>set ns. i < length js \<and> i < length ?jt \<and> unat (counter (s (js ! i))) < length ?jt"
      using Cons.prems by simp
    from Cons.IH[OF this] False Cons.prems show ?thesis by simp
  qed
qed

lemma ex_walk_full:
  assumes "Suc (Suc m) < 0xFFFF"
  shows "sceneObject (markJoints example2 (2 # 3 # replicate m 2) 0) (Some 0) = Some (Some 0) \<and>
         (\<exists>s2. walk 0 (markJoints example2 (2 # 3 # replicate m 2) 0)
                 (2 # 3 # replicate m 2) (2 # 3 # replicate m 2)
               = Some (Inr (s2, (2 # 3 # replicate m 2) @ [1])) \<and>
             (\<forall>x. Visited \<in> flags (s2 x) \<longleftrightarrow> x \<in> {0, 1, 2, 3}) \<and>
             (\<forall>x. Joint \<in> flags (s2 x) \<longleftrightarrow> x \<in> {1, 2, 3}) \<and>
             unat (counter (s2 (Suc 0))) = Suc (Suc m) \<and> counter (s2 2) = 0 \<and> counter (s2 3) = 1 \<and>
             (\<forall>x. parent (s2 x) = parent (example2 x) \<and> isScene (s2 x) = isScene (example2 x)))"
  using assms unat_counter[of "Suc (Suc m)"]
  by (simp add: markJoints_skip walk_skip walk_Cons sceneObject.simps example2_def blank_def)

lemma computeJoints_append:
  "computeJoints compose initial js st (xs @ ys) =
     (case computeJoints compose initial js st xs of
        None \<Rightarrow> None
      | Some (Inl e) \<Rightarrow> Some (Inl e)
      | Some (Inr st') \<Rightarrow> computeJoints compose initial js st' ys)"
  by (induction xs arbitrary: st) (auto split: option.splits sum.splits)

lemma ex_success:
  assumes m: "Suc (Suc m) < 0xFFFF"
  shows "\<exists>res s' composed.
           transformations (@) [] example2 0 (2 # 3 # replicate m 2) []
             = Some (Inr (res, s', composed)) \<and> length res = Suc (Suc m)"
proof -
  let ?objs = "2 # 3 # replicate m (2::nat)"
  let ?js = "?objs @ [1]"
  from ex_walk_full[OF m] obtain s2 where
    so: "sceneObject (markJoints example2 ?objs 0) (Some 0) = Some (Some 0)"
    and w: "walk 0 (markJoints example2 ?objs 0) ?objs ?objs = Some (Inr (s2, ?js))"
    and v: "\<And>x. Visited \<in> flags (s2 x) \<longleftrightarrow> x \<in> {0, 1, 2, 3}"
    and j: "\<And>x. Joint \<in> flags (s2 x) \<longleftrightarrow> x \<in> {1, 2, 3}"
    and c: "unat (counter (s2 (Suc 0))) = Suc (Suc m)" "counter (s2 2) = 0" "counter (s2 3) = 1"
    and p: "\<And>x. parent (s2 x) = parent (example2 x)" "\<And>x. isScene (s2 x) = isScene (example2 x)"
    by blast
  define jt0 :: "nat list list" where "jt0 = replicate (length ?js) []"
  have l0: "length jt0 = Suc (Suc (Suc m))" by (simp add: jt0_def)
  have ljs: "length ?js = Suc (Suc (Suc m))" by simp
  have upt: "[0..<Suc (Suc (Suc m))] = [0, Suc 0] @ [Suc (Suc 0)..<Suc (Suc (Suc m))]"
    by (simp add: upt_conv_Cons)
  have "\<exists>s3 jt lg. computeJoints (@) [] ?js (s2, jt0, []) [0, Suc 0] = Some (Inr (s3, jt, lg)) \<and>
          (\<forall>x. Visited \<notin> flags (s3 x))"
    using l0 m by (simp add: computeJointTransformation_def cjt_Enter cjt_Loop v j c p
        example2_def blank_def nth_append)
  then obtain s3 jt lg where
    c1: "computeJoints (@) [] ?js (s2, jt0, []) [0, Suc 0] = Some (Inr (s3, jt, lg))"
    and v3: "\<And>x. Visited \<notin> flags (s3 x)" by blast
  from computeJoints_post[OF c1, of UNIV] have
    uo: "unvisited_only s2 s3" and l: "length jt = length jt0" by auto
  have "computeJoints (@) [] ?js (s3, jt, lg) [Suc (Suc 0)..<Suc (Suc (Suc m))]
          = Some (Inr (s3, jt, lg))"
    by (rule computeJoints_skip) (auto simp: l l0 v3)
  then have c2: "computeJoints (@) [] ?js (s2, jt0, []) [0..<length ?js] = Some (Inr (s3, jt, lg))"
    unfolding ljs upt computeJoints_append c1 by simp
  have cnt: "unat (counter (s3 x)) < Suc (Suc (Suc m))" if "x \<in> {2, 3}" for x
    using that c(2,3) unvisited_only_fields(5)[OF uo, of x] by auto
  have "\<forall>i\<in>set [0..<length ?objs]. i < length ?js \<and> i < length jt \<and>
          unat (counter (s3 (?js ! i))) < length jt"
  proof
    fix i assume "i \<in> set [0..<length ?objs]"
    then have i: "i < length ?objs" by (simp only: set_upt atLeastLessThan_iff)
    then have "?js ! i = ?objs ! i" by (simp only: nth_append if_True)
    moreover have "?objs ! i \<in> set ?objs" using i by (rule nth_mem)
    then have "?objs ! i \<in> {2, 3}" by (auto split: if_splits)
    ultimately show "i < length ?js \<and> i < length jt \<and> unat (counter (s3 (?js ! i))) < length jt"
      using i cnt by (simp add: l l0)
  qed
  from copyDuplicates_ok[OF this] obtain jt' where
    cd: "copyDuplicates s3 ?js jt [0..<length ?objs] = Inr jt'" and l': "length jt' = length jt"
    by blast
  have len: "length ?objs < 0xFFFF" using m by simp
  have "transformations (@) [] example2 0 ?objs []
          = Some (Inr (take (length ?objs) jt', cleanJoints s3 ?js, lg))"
    unfolding transformations_def Let_def so w
    using len c2[unfolded jt0_def] cd by simp
  moreover have "length (take (length ?objs) jt') = Suc (Suc m)" by (simp add: l' l l0)
  ultimately show ?thesis by blast
qed

lemma markJoints_isScene: "isScene (markJoints s objs i x) = isScene (s x)"
  by (induction objs arbitrary: s i) simp_all

lemma walk_length:
  assumes "walk scene s objs js = Some (Inr (s', js'))" "length js \<le> 0xFFFF"
  shows "length js' \<le> 0xFFFF"
  by (rule walk_invariant[where I = "\<lambda>t os ks. length ks \<le> 0xFFFF", OF assms(1)])
    (use assms(2) in simp_all)

lemma ex_walk_capacity:
  assumes "Suc (Suc (Suc m)) = 0xFFFE"
  shows "sceneObject (markJoints example2 (2 # 3 # 5 # replicate m 2) 0) (Some 0) = Some (Some 0) \<and>
         (\<exists>s2. walk 0 (markJoints example2 (2 # 3 # 5 # replicate m 2) 0)
                 (2 # 3 # 5 # replicate m 2) (2 # 3 # 5 # replicate m 2)
               = Some (Inl (TooLargeScene, s2)) \<and>
             Visited \<in> flags (s2 5) \<and> Visited \<in> flags (s2 0) \<and> Joint \<in> flags (s2 1) \<and>
             counter (s2 1) = 0xFFFE \<and> counter (s2 5) = 2)"
proof -
  have m: "m = 65531" using assms by simp
  have l: "length (2 # 3 # 5 # replicate m (2::nat)) = 65534" by (simp add: m)
  show ?thesis
    by (simp add: markJoints_skip walk_Cons sceneObject.simps example2_def blank_def l[simplified])
qed

subsection \<open>The batch query returns\<close>

lemma ascend_visit: "ascend (visit s it) k x = ascend s k x"
  by (rule ascend_same_parents) simp

lemma ascend_promote: "ascend (promote s p j) k x = ascend s k x"
  by (rule ascend_same_parents) simp

lemma walk_total:
  fixes s :: "'t store"
  assumes "list_all2 (\<lambda>x k. ascend s k x = Some scene) objs ks"
    and "parent (s scene) = None"
    and "\<forall>n. counter (s n) \<noteq> 0xFFFF \<longrightarrow> Joint \<in> flags (s n)"
    and "length js + length objs \<le> 0xFFFF"
  shows "\<exists>s' js'. walk scene s objs js = Some (Inr (s', js'))"
  using assms
proof (induction "sum_list ks + length ks" arbitrary: s objs ks js rule: less_induct)
  case less
  note IH = less(1) and up = less(2) and root = less(3) and cnt = less(4) and cap = less(5)
  show ?case
  proof (cases objs)
    case Nil
    then show ?thesis by (simp add: walk_Nil)
  next
    case (Cons it rest)
    with up obtain k ks' where ks: "ks = k # ks'" and k: "ascend s k it = Some scene"
      and up': "list_all2 (\<lambda>x k. ascend s k x = Some scene) rest ks'"
      by (auto simp: list_all2_Cons1)
    have cap': "length js + length rest \<le> 0xFFFF" using cap Cons by simp
    have vroot: "parent (visit s it scene) = None" using root by auto
    have vcnt: "\<forall>n. counter (visit s it n) \<noteq> 0xFFFF \<longrightarrow> Joint \<in> flags (visit s it n)"
      using cnt by auto
    have vup: "list_all2 (\<lambda>x k. ascend (visit s it) k x = Some scene) rest ks'"
      using up' by (simp add: ascend_visit)
    have drop: "\<exists>s' js'. walk scene (visit s it) rest js = Some (Inr (s', js'))"
      by (rule IH[OF _ vup vroot vcnt cap']) (simp add: ks)
    show ?thesis
    proof (cases "Visited \<in> flags (s it)")
      case True
      have "\<exists>s' js'. walk scene s rest js = Some (Inr (s', js'))"
        by (rule IH[OF _ up' root cnt cap']) (simp add: ks)
      then show ?thesis using True Cons by (simp add: walk_Cons)
    next
      case nv: False
      show ?thesis
      proof (cases "parent (s it)")
        case None
        with k have "it = scene" by (cases k) simp_all
        with drop nv None Cons show ?thesis by (simp add: walk_Cons)
      next
        case (Some p)
        with k root obtain k' where k': "k = Suc k'" "ascend s k' p = Some scene"
          by (cases k) auto
        show ?thesis
        proof (cases "flags (visit s it p) \<inter> {Visited, Joint} \<noteq> {}")
          case hit: True
          show ?thesis
          proof (cases "Joint \<in> flags (visit s it p)")
            case True
            with drop nv Some hit Cons show ?thesis
              by (subst Cons, subst walk_Cons) (simp del: fun_upd_apply)
          next
            case nj: False
            then have "Joint \<notin> flags (s p)" by (auto split: if_splits)
            with cnt have c: "counter (visit s it p) = 0xFFFF" by auto
            have l: "length js < 0xFFFF" using cap Cons by simp
            let ?s2 = "promote (visit s it) p (length js)"
            have "\<exists>s' js'. walk scene ?s2 rest (js @ [p]) = Some (Inr (s', js'))"
            proof (rule IH[of ks'])
              show "sum_list ks' + length ks' < sum_list ks + length ks" by (simp add: ks)
              show "list_all2 (\<lambda>x k. ascend ?s2 k x = Some scene) rest ks'"
                using vup by (simp only: ascend_promote)
              show "parent (?s2 scene) = None" using root by auto
              show "\<forall>n. counter (?s2 n) \<noteq> 0xFFFF \<longrightarrow> Joint \<in> flags (?s2 n)"
                using cnt by auto
              show "length (js @ [p]) + length rest \<le> 0xFFFF" using cap Cons by simp
            qed
            with nv Some hit nj c l show ?thesis
              by (subst Cons, subst walk_Cons) (simp del: fun_upd_apply)
          qed
        next
          case miss: False
          have "\<exists>s' js'. walk scene (visit s it) (p # rest) js = Some (Inr (s', js'))"
          proof (rule IH[of "k' # ks'"])
            show "sum_list (k' # ks') + length (k' # ks') < sum_list ks + length ks"
              by (simp add: ks k')
            show "list_all2 (\<lambda>x k. ascend (visit s it) k x = Some scene) (p # rest) (k' # ks')"
              using vup k'(2) by (simp add: ascend_visit)
            show "parent (visit s it scene) = None" by (rule vroot)
            show "\<forall>n. counter (visit s it n) \<noteq> 0xFFFF \<longrightarrow> Joint \<in> flags (visit s it n)"
              by (rule vcnt)
            show "length js + length (p # rest) \<le> 0xFFFF" using cap Cons by simp
          qed
          with nv Some miss show ?thesis
            by (subst Cons, subst walk_Cons) (simp del: fun_upd_apply)
        qed
      qed
    qed
  qed
qed

lemma single_child_visit:
  assumes "single_child s"
    and "\<And>p c. parent (s it) = Some p \<Longrightarrow> Joint \<notin> flags (s p) \<Longrightarrow> Visited \<in> flags (s c) \<Longrightarrow>
           parent (s c) = Some p \<Longrightarrow> c = it"
  shows "single_child (visit s it)"
  unfolding single_child_def
proof (intro allI impI)
  fix c c' p
  assume a: "Visited \<in> flags (visit s it c) \<and> Visited \<in> flags (visit s it c') \<and>
    parent (visit s it c) = Some p \<and> parent (visit s it c') = Some p \<and> Joint \<notin> flags (visit s it p)"
  then have pc: "parent (s c) = Some p" "parent (s c') = Some p" and nj: "Joint \<notin> flags (s p)"
    by (auto split: if_splits)
  show "c = c'"
  proof (cases "c = it \<or> c' = it")
    case True
    then show ?thesis using a pc nj assms(2)[of p c] assms(2)[of p c']
      by (auto split: if_splits)
  next
    case False
    with a have "Visited \<in> flags (s c)" "Visited \<in> flags (s c')" by auto
    with pc nj assms(1) show ?thesis unfolding single_child_def by blast
  qed
qed

lemma single_child_visit_promote:
  assumes "single_child s" "parent (s it) = Some p"
  shows "single_child (promote (visit s it) p k)"
  unfolding single_child_def
proof (intro allI impI)
  fix c c' q
  let ?t = "promote (visit s it) p k"
  assume a: "Visited \<in> flags (?t c) \<and> Visited \<in> flags (?t c') \<and>
    parent (?t c) = Some q \<and> parent (?t c') = Some q \<and> Joint \<notin> flags (?t q)"
  then have q: "q \<noteq> p" by auto
  from a have pc: "parent (s c) = Some q" "parent (s c') = Some q"
    by (auto split: if_splits)
  with q assms(2) have "c \<noteq> it" "c' \<noteq> it" by auto
  with a have "Visited \<in> flags (s c)" "Visited \<in> flags (s c')" by (auto split: if_splits)
  moreover from a q have "Joint \<notin> flags (s q)" by (auto split: if_splits)
  ultimately show "c = c'" using pc assms(1) unfolding single_child_def by blast
qed

lemma walk_walk_joints:
  assumes run: "walk scene s objs js = Some (Inr (s', js'))"
    and wp: "walk_paths s0 T s objs" and wj: "walk_joints s objs js"
  shows "walk_joints s' [] js'"
proof -
  have "walk_paths s0 T s' [] \<and> walk_joints s' [] js'"
  proof (rule walk_invariant[where I = "\<lambda>t os ks. walk_paths s0 T t os \<and> walk_joints t os ks",
        OF run], goal_cases)
    case 1
    show ?case using wp wj by simp
  next
    case (2 s it rest js)
    note wp = 2(1)[THEN conjunct1] and wj = 2(1)[THEN conjunct2]
    from wp 2(2) have "walk_paths s0 T s rest" by (simp only: walk_paths_skip)
    moreover have "walk_joints s rest js"
      using wj unfolding walk_joints_def by (cases rest) auto
    ultimately show ?case by simp
  next
    case (3 s rest js)
    note wp = 3(1)[THEN conjunct1] and wj = 3(1)[THEN conjunct2]
    from wp have "walk_paths s0 T (visit s scene) rest"
      by (intro walk_paths_drop) (use 3 in auto)
    moreover have "single_child (visit s scene)"
      by (rule single_child_visit) (use wj 3 in \<open>auto simp: walk_joints_def\<close>)
    then have "walk_joints (visit s scene) rest js"
      using wj unfolding walk_joints_def by (cases rest) auto
    ultimately show ?case by simp
  next
    case (4 t it rest ks p)
    note wp = 4(1)[THEN conjunct1] and wj = 4(1)[THEN conjunct2]
    from wp have "walk_paths s0 T (visit t it) rest"
      by (intro walk_paths_drop) (use 4 in auto)
    then have "walk_paths s0 T (promote (visit t it) p (length ks)) rest"
      using 4(4) by (rule walk_paths_promote)
    moreover have "single_child (promote (visit t it) p (length ks))"
      by (rule single_child_visit_promote) (use wj 4 in \<open>auto simp: walk_joints_def\<close>)
    then have "walk_joints (promote (visit t it) p (length ks)) rest (ks @ [p])"
      using wj unfolding walk_joints_def by (cases rest) auto
    ultimately show ?case by simp
  next
    case (5 s it rest js p)
    note wp = 5(1)[THEN conjunct1] and wj = 5(1)[THEN conjunct2]
    from wp have "walk_paths s0 T (visit s it) rest"
      by (intro walk_paths_drop) (use 5 in auto)
    moreover have "single_child (visit s it)"
      by (rule single_child_visit) (use wj 5 in \<open>auto simp: walk_joints_def\<close>)
    then have "walk_joints (visit s it) rest js"
      using wj unfolding walk_joints_def by (cases rest) auto
    ultimately show ?case by simp
  next
    case (6 s it rest js p)
    note wp = 6(1)[THEN conjunct1] and wj = 6(1)[THEN conjunct2]
    from wp 6(3) have "walk_paths s0 T (visit s it) (p # rest)" by (simp only: walk_paths_climb)
    moreover have "single_child (visit s it)"
    proof (rule single_child_visit)
      show "single_child s" using wj by (simp add: walk_joints_def)
    next
      fix q c
      assume a: "parent (s it) = Some q" "Joint \<notin> flags (s q)" "Visited \<in> flags (s c)"
        "parent (s c) = Some q"
      with 6(3) have qp: "q = p" by simp
      from wp a(3,4) have "Visited \<in> flags (s q) \<or> q \<in> set (it # rest)"
        unfolding walk_paths_def by blast
      with qp 6(4,5) have "p \<in> set rest" by auto
      with wj have "Joint \<in> flags (s p)" by (simp add: walk_joints_def)
      with 6(6) show "c = it" by simp
    qed
    then have "walk_joints (visit s it) (p # rest) js"
      using wj unfolding walk_joints_def by auto
    ultimately show ?case by simp
  qed
  then show ?thesis by simp
qed

lemma ascend_unvisit: "ascend (unvisit s ob) k x = ascend s k x"
  by (rule ascend_same_parents) simp

lemma ascend_self_parent: "parent (s x) = Some x \<Longrightarrow> ascend s k x = Some x"
  by (induction k) simp_all

lemma rooted_no_self_parent:
  assumes "ascend s k x = Some r" "parent (s r) = None"
  shows "parent (s x) \<noteq> Some x"
proof
  assume a: "parent (s x) = Some x"
  from ascend_self_parent[of s x k] a assms(1) have "r = x" by simp
  with a assms(2) show False by simp
qed

lemma visited_unvisit: "{v. Visited \<in> flags (unvisit s ob v)} = {v. Visited \<in> flags (s v)} - {ob}"
  by auto

lemma cjt_ready_unvisit:
  assumes r: "cjt_ready scene js s" and v: "Visited \<in> flags (s ob)"
    and j: "Joint \<in> flags (s ob) \<or> (\<forall>c. Visited \<in> flags (s c) \<longrightarrow> parent (s c) \<noteq> Some ob)"
  shows "cjt_ready scene js (unvisit s ob)"
  unfolding cjt_ready_def
proof (intro conjI allI impI)
  note a = r[unfolded cjt_ready_def]
  show "finite {v. Visited \<in> flags (unvisit s ob v)}"
    using a by (simp only: visited_unvisit finite_Diff)
  show "unat (counter (unvisit s ob n)) < length js" if "Joint \<in> flags (unvisit s ob n)" for n
    using a that by (auto split: if_splits)
  show "Joint \<in> flags (unvisit s ob (js ! i))" if "i < length js" for i
    using a that by auto
  show "\<exists>k. ascend (unvisit s ob) k x = Some scene" if "Visited \<in> flags (unvisit s ob x)" for x
  proof -
    from that have "Visited \<in> flags (s x)" by (auto split: if_splits)
    with a obtain k where "ascend s k x = Some scene" by blast
    then show ?thesis by (auto simp only: ascend_unvisit)
  qed
  show "parent (unvisit s ob scene) = None" using a by auto
  show "isScene (unvisit s ob scene)" using a by auto
  show "Visited \<in> flags (unvisit s ob p)"
    if "Visited \<in> flags (unvisit s ob c) \<and> parent (unvisit s ob c) = Some p \<and>
        Joint \<notin> flags (unvisit s ob p)" for c p
  proof -
    from that have c: "Visited \<in> flags (s c)" "c \<noteq> ob" "parent (s c) = Some p"
      "Joint \<notin> flags (s p)" by (auto split: if_splits)
    with a have vp: "Visited \<in> flags (s p)" by blast
    have "p \<noteq> ob" using j c by auto
    with vp show ?thesis by simp
  qed
  show "single_child (unvisit s ob)"
    using a unfolding single_child_def
    by (auto split: if_splits)
qed

lemma cjt_total:
  fixes s :: "'t store"
  assumes "cjt_ready scene js s" and "length jt = length js"
    and "case c of
           Enter j \<Rightarrow> j < length js
         | Loop j ob \<Rightarrow> Visited \<in> flags (s ob) \<and>
             (Joint \<in> flags (s ob) \<or> (\<forall>x. Visited \<in> flags (s x) \<longrightarrow> parent (s x) \<noteq> Some ob))"
  shows "\<exists>s' jt' lg'. cjt_rec compose initial js (s, jt, lg) c = Some (Inr (s', jt', lg')) \<and>
           cjt_ready scene js s' \<and> length jt' = length js"
  using assms
proof (induction "2 * card {v. Visited \<in> flags (s v)} + (case c of Enter j \<Rightarrow> 1 | Loop j ob \<Rightarrow> 0)"
    arbitrary: s jt lg c rule: less_induct)
  case less
  note IH = less(1) and r = less(2) and l = less(3) and pre = less(4)
  note a = r[unfolded cjt_ready_def]
  show ?case
  proof (cases c)
    case (Enter j)
    with pre l have j: "j < length js" "j < length jt" by simp_all
    show ?thesis
    proof (cases "Visited \<in> flags (s (js ! j))")
      case False
      with j r l show ?thesis by (simp add: Enter cjt_Enter)
    next
      case True
      have "\<exists>s' jt' lg'. cjt_rec compose initial js (s, jt[j := transformation (s (js ! j))], lg)
              (Loop j (js ! j)) = Some (Inr (s', jt', lg')) \<and>
           cjt_ready scene js s' \<and> length jt' = length js"
      proof (rule IH)
        show "2 * card {v. Visited \<in> flags (s v)} + (case Loop j (js ! j) of Enter j \<Rightarrow> 1 | Loop j ob \<Rightarrow> 0)
            < 2 * card {v. Visited \<in> flags (s v)} + (case c of Enter j \<Rightarrow> 1 | Loop j ob \<Rightarrow> 0)"
          by (simp add: Enter)
        show "cjt_ready scene js s" by (rule r)
        show "length (jt[j := transformation (s (js ! j))]) = length js" using l by simp
        show "case Loop j (js ! j) of
           Enter j \<Rightarrow> j < length js
         | Loop j ob \<Rightarrow> Visited \<in> flags (s ob) \<and>
             (Joint \<in> flags (s ob) \<or> (\<forall>x. Visited \<in> flags (s x) \<longrightarrow> parent (s x) \<noteq> Some ob))"
          using True a j(1) by simp
      qed
      with j True show ?thesis by (simp add: Enter cjt_Enter)
    qed
  next
    case (Loop j ob)
    with pre have v: "Visited \<in> flags (s ob)"
      and jn: "Joint \<in> flags (s ob) \<or> (\<forall>x. Visited \<in> flags (s x) \<longrightarrow> parent (s x) \<noteq> Some ob)"
      by simp_all
    let ?s1 = "unvisit s ob"
    have r1: "cjt_ready scene js ?s1" by (rule cjt_ready_unvisit[OF r v jn])
    have fin: "finite {v. Visited \<in> flags (s v)}" using a by simp
    have "ob \<in> {v. Visited \<in> flags (s v)}" using v by simp
    with fin have cd: "card {v. Visited \<in> flags (?s1 v)} < card {v. Visited \<in> flags (s v)}"
      by (simp only: visited_unvisit) (rule card_Diff1_less)
    from a v obtain k where k: "ascend s k ob = Some scene" by blast
    show ?thesis
    proof (cases "parent (s ob)")
      case None
      with k have "ob = scene" by (cases k) simp_all
      with a have "isScene (s ob)" by simp
      with v None r1 l show ?thesis by (simp add: Loop cjt_Loop)
    next
      case (Some p)
      have pne: "p \<noteq> ob" using rooted_no_self_parent[OF k] a Some by auto
      show ?thesis
      proof (cases "Joint \<in> flags (s p)")
        case True
        let ?i = "unat (counter (s p))"
        from a True have i: "?i < length js" by blast
        have "\<exists>s' jt' lg'. cjt_rec compose initial js (?s1, jt, lg) (Enter ?i)
                = Some (Inr (s', jt', lg')) \<and> cjt_ready scene js s' \<and> length jt' = length js"
        proof (rule IH)
          show "2 * card {v. Visited \<in> flags (?s1 v)} + (case Enter ?i of Enter j \<Rightarrow> 1 | Loop j ob \<Rightarrow> 0)
              < 2 * card {v. Visited \<in> flags (s v)} + (case c of Enter j \<Rightarrow> 1 | Loop j ob \<Rightarrow> 0)"
            using cd by (simp add: Loop)
          show "cjt_ready scene js ?s1" by (rule r1)
          show "length jt = length js" by (rule l)
          show "case Enter ?i of
             Enter j \<Rightarrow> j < length js
           | Loop j ob \<Rightarrow> Visited \<in> flags (?s1 ob) \<and>
               (Joint \<in> flags (?s1 ob) \<or> (\<forall>x. Visited \<in> flags (?s1 x) \<longrightarrow> parent (?s1 x) \<noteq> Some ob))"
            using i by simp
        qed
        then obtain s2 jt2 lg2 where
          rec: "cjt_rec compose initial js (?s1, jt, lg) (Enter ?i) = Some (Inr (s2, jt2, lg2))"
          and r2: "cjt_ready scene js s2" and l2: "length jt2 = length js" by blast
        have c1: "counter (?s1 p) = counter (s p)" using pne by simp
        have j1: "Joint \<in> flags (?s1 p)" using True pne by simp
        have p1: "parent (?s1 ob) = Some p" using Some by simp
        have "cjt_rec compose initial js (s, jt, lg) (Loop j ob)
            = Some (Inr (s2, jt2[j := compose (jt2 ! ?i) (jt2 ! j)], lg2 @ [ob]))"
          by (subst cjt_Loop) (use v Some True pne rec in simp)
        with r2 l2 show ?thesis by (simp add: Loop)
      next
        case False
        let ?jt1 = "jt[j := compose (transformation (?s1 p)) (jt ! j)]"
        from a v Some False have vp: "Visited \<in> flags (s p)" by blast
        have "\<exists>s' jt' lg'. cjt_rec compose initial js (?s1, ?jt1, lg @ [ob]) (Loop j p)
                = Some (Inr (s', jt', lg')) \<and> cjt_ready scene js s' \<and> length jt' = length js"
        proof (rule IH)
          show "2 * card {v. Visited \<in> flags (?s1 v)} + (case Loop j p of Enter j \<Rightarrow> 1 | Loop j ob \<Rightarrow> 0)
              < 2 * card {v. Visited \<in> flags (s v)} + (case c of Enter j \<Rightarrow> 1 | Loop j ob \<Rightarrow> 0)"
            using cd by (simp add: Loop)
          show "cjt_ready scene js ?s1" by (rule r1)
          show "length ?jt1 = length js" using l by simp
          have "Visited \<in> flags (?s1 p)" using vp pne by simp
          moreover have "parent (?s1 x) \<noteq> Some p" if "Visited \<in> flags (?s1 x)" for x
          proof
            assume px: "parent (?s1 x) = Some p"
            from that have x: "Visited \<in> flags (s x)" "x \<noteq> ob" by (auto split: if_splits)
            with px have "parent (s x) = Some p" by simp
            with x(1) v Some False a have "x = ob" unfolding single_child_def by blast
            with x(2) show False by simp
          qed
          ultimately show "case Loop j p of
             Enter j \<Rightarrow> j < length js
           | Loop j ob \<Rightarrow> Visited \<in> flags (?s1 ob) \<and>
               (Joint \<in> flags (?s1 ob) \<or> (\<forall>x. Visited \<in> flags (?s1 x) \<longrightarrow> parent (?s1 x) \<noteq> Some ob))"
            by simp
        qed
        then show ?thesis
          by (subst Loop, subst cjt_Loop) (use v Some False pne in simp)
      qed
    qed
  qed
qed

lemma computeJoints_total:
  fixes s :: "'t store"
  assumes "cjt_ready scene js s" "length jt = length js" "\<forall>i\<in>set ns. i < length js"
  shows "\<exists>s' jt' lg'. computeJoints compose initial js (s, jt, lg) ns = Some (Inr (s', jt', lg')) \<and>
           cjt_ready scene js s' \<and> length jt' = length js"
  using assms
proof (induction ns arbitrary: s jt lg)
  case Nil
  then show ?case by simp
next
  case (Cons i ns)
  from Cons.prems(3) have i: "case Enter i of
           Enter j \<Rightarrow> j < length js
         | Loop j ob \<Rightarrow> Visited \<in> flags (s ob) \<and>
             (Joint \<in> flags (s ob) \<or> (\<forall>x. Visited \<in> flags (s x) \<longrightarrow> parent (s x) \<noteq> Some ob))"
    by simp
  from cjt_total[OF Cons.prems(1,2) i, of compose initial lg] obtain s1 jt1 lg1 where
    a: "cjt_rec compose initial js (s, jt, lg) (Enter i) = Some (Inr (s1, jt1, lg1))"
    and r1: "cjt_ready scene js s1" and l1: "length jt1 = length js" by blast
  from Cons.prems(3) have "\<forall>i\<in>set ns. i < length js" by simp
  from Cons.IH[OF r1 l1 this, of lg1] a show ?case
    by (simp add: computeJointTransformation_def)
qed

lemma copyDuplicates_total:
  assumes "\<forall>i\<in>set ns. i < length js \<and> i < length jt \<and> unat (counter (s (js ! i))) < length jt"
  shows "\<exists>jt'. copyDuplicates s js jt ns = Inr jt'"
  using assms
proof (induction ns arbitrary: jt)
  case Nil
  then show ?case by simp
next
  case (Cons i ns)
  let ?jt1 = "jt[i := jt ! unat (counter (s (js ! i)))]"
  have "\<exists>jt'. copyDuplicates s js jt ns = Inr jt'" by (rule Cons.IH) (use Cons.prems in simp)
  moreover have "\<exists>jt'. copyDuplicates s js ?jt1 ns = Inr jt'"
    by (rule Cons.IH) (use Cons.prems in simp)
  ultimately show ?case using Cons.prems by simp
qed

lemma ascend_chain:
  "ascend s j t = Some v \<Longrightarrow> ascend s k t = Some r \<Longrightarrow> parent (s r) = None
     \<Longrightarrow> \<exists>m. ascend s m v = Some r"
proof (induction j arbitrary: t k)
  case 0
  then have "ascend s k v = Some r" by simp
  then show ?case by blast
next
  case (Suc j)
  from Suc.prems(1) obtain q where q: "parent (s t) = Some q" "ascend s j q = Some v"
    by (auto split: option.splits)
  with Suc.prems(2,3) obtain k' where "k = Suc k'" "ascend s k' q = Some r"
    by (cases k) auto
  from Suc.IH[OF q(2) this(2) Suc.prems(3)] show ?case .
qed

lemma list_all2_choice: "\<forall>x\<in>set xs. \<exists>y. P x y \<Longrightarrow> \<exists>ys. list_all2 P xs ys"
proof (induction xs)
  case Nil
  then show ?case by simp
next
  case (Cons x xs)
  then obtain y ys where "P x y" "list_all2 P xs ys" by auto
  then have "list_all2 P (x # xs) (y # ys)" by simp
  then show ?case by blast
qed

lemma transformations_total:
  fixes s :: "'t store"
  assumes um: "unmarked s" and sc: "isScene (s this)" and pr: "parent (s this) = None"
    and tg: "\<forall>t\<in>set objects. ancestor_or_self s this t"
    and cap: "2 * length objects \<le> 0xFFFF"
  shows "\<exists>res s' composed.
           transformations compose dflt s this objects initial = Some (Inr (res, s', composed))"
proof -
  let ?s1 = "markJoints s objects 0"
  have len: "length objects < 0xFFFF" using cap by simp
  note m = marked_props[OF um len]
  have f1: "parent (?s1 x) = parent (s x)" "isScene (?s1 x) = isScene (s x)" for x
    using m(1) by (simp_all add: marks_added_def)
  have as1: "ascend ?s1 k x = ascend s k x" for k x
    by (rule ascend_same_parents) (rule f1(1))
  have so: "sceneObject ?s1 (Some this) = Some (Some this)"
    by (rule sceneObject_scene) (simp add: f1 sc)
  have "\<forall>t\<in>set objects. \<exists>k. ascend ?s1 k t = Some this"
    using tg by (simp add: ancestor_or_self_def as1)
  from list_all2_choice[OF this] obtain ks where
    ks: "list_all2 (\<lambda>x k. ascend ?s1 k x = Some this) objects ks" by blast
  have cnt: "\<forall>n. counter (?s1 n) \<noteq> 0xFFFF \<longrightarrow> Joint \<in> flags (?s1 n)"
    using m(2) by (simp add: indexed_def)
  have "length objects + length objects \<le> 0xFFFF" using cap by simp
  from walk_total[OF ks _ cnt this] f1 pr obtain s2 js where
    w: "walk this ?s1 objects objects = Some (Inr (s2, js))" by auto
  from walk_frame[OF w] obtain ex where f: "marks_added ?s1 s2" and js: "js = objects @ ex"
    by blast
  have f2: "parent (s2 x) = parent (s x)" "isScene (s2 x) = isScene (s x)" for x
    using f f1 by (simp_all add: marks_added_def)
  have as2: "ascend s2 k x = ascend s k x" for k x
    by (rule ascend_same_parents) (rule f2(1))
  have idx: "indexed s2 js" by (rule walk_indexed[OF w m(2)])
  have wp0: "walk_paths ?s1 (set objects) ?s1 objects"
    using m(3,4) by (auto simp: walk_paths_def paths_up_self)
  note wp = walk_walk_paths[OF w wp0, unfolded walk_paths_def]
  have "set (tl objects) \<subseteq> set objects" by (cases objects) auto
  then have wj0: "walk_joints ?s1 objects objects"
    using m(3,4) by (auto simp: walk_joints_def single_child_def)
  note wj = walk_walk_joints[OF w wp0 wj0, unfolded walk_joints_def]
  have rooted: "\<exists>k. ascend s2 k v = Some this" if "Visited \<in> flags (s2 v)" for v
  proof -
    from wp that have "v \<in> paths_up ?s1 (set objects)" by blast
    then obtain t j where t: "t \<in> set objects" "ascend s j t = Some v"
      by (auto simp: paths_up_def ancestor_or_self_def as1)
    from tg t(1) obtain k where "ascend s k t = Some this"
      by (auto simp: ancestor_or_self_def)
    from ascend_chain[OF t(2) this pr] show ?thesis by (simp add: as2)
  qed
  have ready: "cjt_ready this js s2"
    unfolding cjt_ready_def
  proof (intro conjI allI impI)
    show "finite {v. Visited \<in> flags (s2 v)}" using wp by simp
    show "unat (counter (s2 n)) < length js" if "Joint \<in> flags (s2 n)" for n
      using idx that by (simp add: indexed_def)
    show "Joint \<in> flags (s2 (js ! i))" if "i < length js" for i
      using wj that by simp
    show "\<exists>k. ascend s2 k v = Some this" if "Visited \<in> flags (s2 v)" for v
      by (rule rooted[OF that])
    show "parent (s2 this) = None" by (simp add: f2 pr)
    show "isScene (s2 this)" by (simp add: f2 sc)
    show "Visited \<in> flags (s2 p)"
      if "Visited \<in> flags (s2 c) \<and> parent (s2 c) = Some p \<and> Joint \<notin> flags (s2 p)" for c p
      using wp that by auto
    show "single_child s2" using wj by simp
  qed
  have "\<forall>i\<in>set [0..<length js]. i < length js" by simp
  from computeJoints_total[OF ready _ this, of "replicate (length js) dflt" compose initial "[]"]
  obtain s3 jt composed where
    c: "computeJoints compose initial js (s2, replicate (length js) dflt, []) [0..<length js]
          = Some (Inr (s3, jt, composed))"
    and r3: "cjt_ready this js s3" and l3: "length jt = length js" by auto
  have "\<forall>i\<in>set [0..<length objects].
          i < length js \<and> i < length jt \<and> unat (counter (s3 (js ! i))) < length jt"
    using r3 l3 js unfolding cjt_ready_def by auto
  from copyDuplicates_total[OF this] obtain jt' where
    d: "copyDuplicates s3 js jt [0..<length objects] = Inr jt'" by blast
  show ?thesis
    unfolding transformations_def Let_def using len so w c d by simp
qed

lemma example2_rooted:
  "isScene (example2 0)" "parent (example2 0) = None"
  "ancestor_or_self example2 0 1" "ancestor_or_self example2 0 2"
  "ancestor_or_self example2 0 3" "ancestor_or_self example2 0 5"
proof -
  show "isScene (example2 0)" "parent (example2 0) = None"
    by (simp_all add: example2_def blank_def)
  have "ascend example2 1 1 = Some 0" "ascend example2 2 2 = Some 0"
    "ascend example2 2 3 = Some 0" "ascend example2 1 5 = Some 0"
    by (simp_all add: numeral_2_eq_2 example2_def blank_def)
  then show "ancestor_or_self example2 0 1" "ancestor_or_self example2 0 2"
    "ancestor_or_self example2 0 3" "ancestor_or_self example2 0 5"
    unfolding ancestor_or_self_def by blast+
qed

lemma compose_once_Inr:
  assumes "unmarked s"
    and "transformations compose dflt s this objects initial = Some (Inr (res, s', composed))"
  shows "distinct composed \<and> set composed = paths_up s (set objects) \<and>
         length composed = card (paths_up s (set objects))"
proof (rule solver_phases[OF assms], goal_cases)
  case (1 s2 js s3 jt jt' ex)
  note vis = 1(5) and cl = 1(7) and lg = 1(8)
  from lg obtain new where n: "composed = [] @ new" "distinct new"
    "set new = {x. Visited \<in> flags (s2 x) \<and> Visited \<notin> flags (s3 x)}"
    unfolding logged_def by blast
  have "set new = {v. Visited \<in> flags (s2 v)}" using n(3) cl by simp
  with n(1,2) vis have "distinct composed" "set composed = paths_up s (set objects)"
    by simp_all
  then show ?case using distinct_card[of composed] by simp
qed

lemma duplicates_agree_Inr:
  assumes "unmarked s"
    and "transformations compose dflt s this objects initial = Some (Inr (res, s', composed))"
    and "i < length objects" "j < length objects" "objects ! i = objects ! j"
  shows "length res = length objects \<and> res ! i = res ! j \<and>
         res ! j = res ! first_index objects (objects ! j) \<and> distinct composed"
proof (rule solver_phases[OF assms(1,2)], goal_cases)
  case (1 s2 js s3 jt jt' ex)
  note len = 1(1) and f = 1(2) and js = 1(3) and uo = 1(6) and lg = 1(8) and l = 1(9)
    and d = 1(10) and e = 1(11)
  note m = marked_props[OF assms(1) len]
  define f where "f = (\<lambda>i. unat (counter (s3 (js ! i))))"
  have fi: "f k = first_index objects (objects ! k)" if "k < length objects" for k
  proof -
    have k: "js ! k = objects ! k" using that by (simp add: js nth_append)
    have mem: "objects ! k \<in> set objects" using that by simp
    then have "Joint \<in> flags (markJoints s objects 0 (objects ! k))" using m(4) by blast
    then have "counter (s2 (objects ! k)) = counter (markJoints s objects 0 (objects ! k))"
      using f unfolding marks_added_def by blast
    then show ?thesis
      using m(5) mem unvisited_only_fields(5)[OF uo, of "objects ! k"] by (simp add: f_def k)
  qed
  have idem: "\<forall>k<length objects. f k \<le> k \<and> f (f k) = f k"
  proof (intro allI impI)
    fix k assume k: "k < length objects"
    have a: "f k \<le> k" using fi[OF k] first_index_le[OF k] by simp
    then have "f k < length objects" using k by simp
    from fi[OF this] have "f (f k) = first_index objects (objects ! k)"
      using fi[OF k] first_index_nth[of "objects ! k" objects] k by simp
    with a fi[OF k] show "f k \<le> k \<and> f (f k) = f k" by simp
  qed
  from copyDuplicates_result[OF d[folded f_def] idem[unfolded f_def] refl]
  have r: "length jt' = length jt" "\<forall>k<length objects. k < length jt \<longrightarrow> jt' ! k = jt ! f k"
    by (auto simp: f_def)
  have ll: "length objects \<le> length jt" by (simp add: l js)
  then have rk: "res ! k = jt ! f k" if "k < length objects" for k
    using that r by (simp add: e)
  have lr: "length res = length objects" using r(1) ll by (simp add: e)
  have eq: "res ! i = res ! j" using rk assms(3-5) fi by simp
  have fj: "f j \<le> j" "f (f j) = f j" using idem assms(4) by simp_all
  then have "f j < length objects" using assms(4) by simp
  from rk[OF this] fj(2) rk[OF assms(4)] have "res ! j = res ! f j" by simp
  then have first: "res ! j = res ! first_index objects (objects ! j)"
    using fi[OF assms(4)] by simp
  from lg have "distinct composed" unfolding logged_def by auto
  with lr eq first show ?case by simp
qed

subsection \<open>The claims on the batch query\<close>

text \<open>
  Claim C1.  Let \<open>n\<close> be a node of the tree whose root is the scene, in a store with
  no marks left, and let \<open>compose\<close> be associative, as the transformation capability
  is required to be, with the initial transformation as its left identity.  Then
  the batch query made on the scene for the single target \<open>n\<close> returns a list of one
  element, and that element is the result of \<open>absoluteTransformation\<close> at \<open>n\<close>.
\<close>

theorem batch_agrees_with_walk:
  assumes um: "unmarked s" and sc: "isScene (s scene)" and pr: "parent (s scene) = None"
    and up: "ascend s k n = Some scene"
    and assoc: "\<forall>a b c. compose (compose a b) c = compose a (compose b c)"
    and ident: "\<forall>a. compose identity a = a"
  shows "\<exists>a s' composed.
           transformations compose dflt s scene [n] identity = Some (Inr ([a], s', composed)) \<and>
           absoluteTransformation compose s n = Some a"
proof -
  from ascend_path[OF up pr] obtain rest where
    path: "is_path s (n # rest)" and last: "last (n # rest) = scene" by blast
  have u: "Visited \<notin> flags (s x)" "Joint \<notin> flags (s x)" "counter (s x) = 0xFFFF" for x
    using um by (simp_all add: unmarked_def)
  from is_path_distinct[OF path] have nr: "n \<notin> set rest" by simp
  define s1 where "s1 = s(n := (s n)\<lparr>counter := 0, flags := insert Joint (flags (s n))\<rparr>)"
  define s2 where "s2 = visited_on (set (n # rest)) s1"
  define s3 where "s3 = unvisited_on (set (n # rest)) s2"
  define a where "a = abs_from compose s n rest"
  have m: "markJoints s [n] 0 = s1" by (simp add: s1_def u)
  have so: "sceneObject s1 (Some scene) = Some (Some scene)"
    by (rule sceneObject_scene) (use sc in \<open>auto simp: s1_def\<close>)
  have p1: "is_path s1 (n # rest)"
    using path is_path_cong[of s1 s "n # rest"] by (simp add: s1_def)
  have w: "walk scene s1 [n] [n] = Some (Inr (s2, [n]))"
    unfolding s2_def
    by (subst walk_path[OF p1 last]) (use nr in \<open>auto simp: s1_def u walk_Nil\<close>)
  have p2: "is_path s2 (n # rest)"
    using p1 is_path_cong[of s2 s1 "n # rest"] by (simp add: s2_def visited_on_def)
  have sc2: "isScene (s2 (List.last (n # rest)))"
    unfolding last using sc by (auto simp: s2_def s1_def visited_on_def)
  have v2: "\<forall>x\<in>set (n # rest). Visited \<in> flags (s2 x)"
    by (simp add: s2_def visited_on_def)
  have j2: "\<forall>x\<in>set rest. Joint \<notin> flags (s2 x)"
    using nr by (auto simp: s2_def s1_def visited_on_def u)
  have tr2: "transformation (s2 x) = transformation (s x)" for x
    by (simp add: s2_def s1_def visited_on_def)
  have cu_a: "compose_up compose identity s2 rest (transformation (s2 n)) = a"
  proof (cases rest)
    case Nil
    then show ?thesis using ident by (simp add: a_def tr2)
  next
    case (Cons p r)
    have "compose_up compose identity s2 (p # r) (transformation (s2 n))
            = compose identity (compose (abs_from compose s2 p r) (transformation (s2 n)))"
      by (rule compose_up_abs[OF assoc])
    also have "\<dots> = abs_from compose s2 n (p # r)" using ident by simp
    also have "\<dots> = abs_from compose s n (p # r)" by (rule abs_from_cong) (rule tr2)
    finally show ?thesis by (simp add: a_def Cons)
  qed
  have "cjt_rec compose identity [n] (s2, [transformation (s2 n)], []) (Loop 0 n)
          = Some (Inr (s3, [transformation (s2 n)][0 := a], [] @ n # rest))"
    using cjt_loop_path[OF p2 sc2 v2 j2, of 0 "[transformation (s2 n)]" compose identity "[n]" "[]"]
    by (simp add: s3_def cu_a)
  then have cj: "computeJointTransformation compose identity [n] (s2, [dflt], []) 0
                   = Some (Inr (s3, [a], n # rest))"
    using v2 by (simp add: computeJointTransformation_def cjt_Enter)
  have cd: "counter (s3 n) = 0"
    by (simp add: s3_def s2_def s1_def unvisited_on_def visited_on_def)
  have "transformations compose dflt s scene [n] identity
          = Some (Inr ([a], cleanJoints s3 [n], n # rest))"
    unfolding transformations_def Let_def m so w by (simp add: cj cd)
  moreover have "absoluteTransformation compose s n = Some a"
    unfolding a_def by (rule absoluteTransformation_path[OF path])
  ultimately show ?thesis by blast
qed

theorem batch_agrees_with_walk_witness:
  "unmarked example2 \<and> isScene (example2 0) \<and> parent (example2 0) = None \<and>
   ascend example2 2 2 = Some 0 \<and>
   (\<exists>s' composed. transformations (@) [] example2 0 [2] [] = Some (Inr ([[0, 1, 2]], s', composed))) \<and>
   absoluteTransformation (@) example2 2 = Some [0, 1, 2]"
proof -
  have a: "isScene (example2 0)" "parent (example2 0) = None" "ascend example2 2 2 = Some 0"
    by (simp_all add: numeral_2_eq_2 example2_def blank_def)
  have b: "\<forall>a b c :: nat list. (a @ b) @ c = a @ (b @ c)" "\<forall>a :: nat list. [] @ a = a" by simp_all
  from batch_agrees_with_walk[OF example_unmarked a b, of "[]"] obtain x s' composed where
    r: "transformations (@) [] example2 0 [2] [] = Some (Inr ([x], s', composed))"
      "absoluteTransformation (@) example2 2 = Some x" by blast
  have "absoluteTransformation (@) example2 2 = Some [0, 1, 2]"
    by (simp add: absoluteTransformation.simps example2_def blank_def)
  with r have "x = [0, 1, 2]" by simp
  with r a example_unmarked show ?thesis by blast
qed

text \<open>
  Claim C2.  When a batch query that starts without marks returns its list, the list
  is as long as the list of targets, the entries at two positions holding the same
  target are equal, each of them being the entry at the first position of that target,
  and \<open>compose\<close> has been called at no object twice.  The query does return its list
  when it is made on a scene without a parent, every target is the scene or below it,
  and there are at most \<open>0x7FFF\<close> targets.
\<close>

theorem duplicates_agree:
  assumes "unmarked s"
  shows "(transformations compose dflt s this objects initial = Some (Inr (res, s', composed)) \<and>
          i < length objects \<and> j < length objects \<and> objects ! i = objects ! j \<longrightarrow>
            length res = length objects \<and> res ! i = res ! j \<and>
            res ! j = res ! first_index objects (objects ! j) \<and> distinct composed) \<and>
         (isScene (s this) \<and> parent (s this) = None \<and>
          (\<forall>t\<in>set objects. ancestor_or_self s this t) \<and> 2 * length objects \<le> 0xFFFF \<longrightarrow>
            (\<exists>res s' composed.
               transformations compose dflt s this objects initial = Some (Inr (res, s', composed))))"
  using duplicates_agree_Inr[OF assms] transformations_total[OF assms] by blast

theorem duplicates_agree_witness:
  "unmarked example2 \<and> isScene (example2 0) \<and> parent (example2 0) = None \<and>
   ancestor_or_self example2 0 2 \<and> ancestor_or_self example2 0 1 \<and>
   (\<exists>res s' composed.
      transformations (@) [] example2 0 [2, 1, 2] [] = Some (Inr (res, s', composed)) \<and>
      length res = 3 \<and> res ! 0 = [0, 1, 2] \<and> res ! 2 = res ! 0 \<and> distinct composed)"
proof -
  note th = duplicates_agree[where s = example2 and this = 0 and compose = "(@)" and dflt = "[]"
      and initial = "[]" and objects = "[2, 1, 2]", OF example_unmarked]
  note wf = example2_rooted
  have "\<forall>t\<in>set [2, 1, 2]. ancestor_or_self example2 0 t" using wf by simp
  with th[THEN conjunct2] wf obtain res s' composed where
    r: "transformations (@) [] example2 0 [2, 1, 2] [] = Some (Inr (res, s', composed))"
    by auto
  from ex_run1 r have v: "res = [[0, 1, 2], [0, 1], [0, 1, 2]]" by auto
  have "transformations (@) [] example2 0 [2, 1, 2] [] = Some (Inr (res, s', composed)) \<and>
        (2::nat) < length [2, 1, 2::nat] \<and> (0::nat) < length [2, 1, 2::nat] \<and>
        [2, 1, 2::nat] ! 2 = [2, 1, 2] ! 0"
    using r by simp
  from th[where i = 2 and j = 0, THEN conjunct1, rule_format, OF this]
  have "length res = 3 \<and> res ! 2 = res ! 0 \<and> distinct composed" by simp
  moreover have "res ! 0 = [0, 1, 2]" by (simp add: v)
  ultimately show ?thesis using r example_unmarked wf by blast
qed

text \<open>
  Claim C3.  In a batch query that starts without marks and returns its list,
  \<open>compose\<close> is called exactly once at every object on the union of the paths from
  the targets to the root and at no other object: the number of calls is the number
  of objects on these paths, whatever the number of targets that share a path.  The
  query does return its list when it is made on a scene without a parent, every
  target is the scene or below it, and there are at most \<open>0x7FFF\<close> targets.
\<close>

theorem compose_once:
  assumes "unmarked s"
  shows "(transformations compose dflt s this objects initial = Some (Inr (res, s', composed)) \<longrightarrow>
            distinct composed \<and> set composed = paths_up s (set objects) \<and>
            length composed = card (paths_up s (set objects))) \<and>
         (isScene (s this) \<and> parent (s this) = None \<and>
          (\<forall>t\<in>set objects. ancestor_or_self s this t) \<and> 2 * length objects \<le> 0xFFFF \<longrightarrow>
            (\<exists>res s' composed.
               transformations compose dflt s this objects initial = Some (Inr (res, s', composed))))"
  using compose_once_Inr[OF assms] transformations_total[OF assms] by blast

theorem compose_once_witness:
  "unmarked example2 \<and> isScene (example2 0) \<and> parent (example2 0) = None \<and>
   ancestor_or_self example2 0 2 \<and> ancestor_or_self example2 0 3 \<and>
   ancestor_or_self example2 0 5 \<and>
   (\<exists>res s'. transformations (@) [] example2 0 [2, 3, 5] [] = Some (Inr (res, s', [0, 1, 2, 3, 5]))) \<and>
   paths_up example2 (set [2, 3, 5]) = set [0, 1, 2, 3, 5] \<and>
   card (paths_up example2 (set [2, 3, 5])) = 5 \<and>
   (\<exists>res s'. transformations (@) [] example2 0 [2, 1, 2] [] = Some (Inr (res, s', [1, 0, 2]))) \<and>
   paths_up example2 (set [2, 1, 2]) = set [1, 0, 2]"
proof -
  note th = compose_once[where s = example2 and this = 0 and compose = "(@)" and dflt = "[]"
      and initial = "[]", OF example_unmarked]
  note wf = example2_rooted
  have "\<forall>t\<in>set [2, 3, 5]. ancestor_or_self example2 0 t" using wf by simp
  with th[where objects = "[2, 3, 5]", THEN conjunct2] wf obtain res s' composed where
    r: "transformations (@) [] example2 0 [2, 3, 5] [] = Some (Inr (res, s', composed))"
    by auto
  from ex_run2 r have c: "composed = [0, 1, 2, 3, 5]" by auto
  note p = th[where objects = "[2, 3, 5]", THEN conjunct1, rule_format, OF r, unfolded c]
  have a: "paths_up example2 (set [2, 3, 5]) = set [0, 1, 2, 3, 5]"
    by (rule p[THEN conjunct2, THEN conjunct1, symmetric])
  have "card (paths_up example2 (set [2, 3, 5])) = length [0, 1, 2, 3, 5 :: nat]"
    by (rule p[THEN conjunct2, THEN conjunct2, symmetric])
  then have a': "card (paths_up example2 (set [2, 3, 5])) = 5" by simp
  from ex_run1 obtain s'' where
    r': "transformations (@) [] example2 0 [2, 1, 2] []
          = Some (Inr ([[0, 1, 2], [0, 1], [0, 1, 2]], s'', [1, 0, 2]))" by blast
  have b: "paths_up example2 (set [2, 1, 2]) = set [1, 0, 2]"
    by (rule th[where objects = "[2, 1, 2]", THEN conjunct1, rule_format, OF r',
          THEN conjunct2, THEN conjunct1, symmetric])
  from r[unfolded c] r' a a' b example_unmarked wf show ?thesis by blast
qed

text \<open>
  Claim C4 as stated fails on the error paths.  A query made on object 1, which is
  no scene, ends with "only for scene" and leaves the target 2 a joint with counter
  0; a query for the detached object 4 ends with "not part of the same tree" and
  leaves 4 visited and a joint; a query whose walk runs out of joint indices ends
  with "too large scene" and leaves 5 visited and 1 a joint with counter \<open>0xFFFE\<close>.
\<close>

theorem marks_left_counterexample:
  "unmarked example2 \<and>
   map_option (map_sum (\<lambda>(e, s'). (e, Joint \<in> flags (s' 2), counter (s' 2))) (\<lambda>_. ()))
     (transformations (@) [] example2 1 [2] []) = Some (Inl (OnlyForScene, True, 0)) \<and>
   map_option (map_sum (\<lambda>(e, s'). (e, Visited \<in> flags (s' 4), Joint \<in> flags (s' 4), counter (s' 4)))
       (\<lambda>_. ()))
     (transformations (@) [] example2 0 [4] []) = Some (Inl (NotSameTree, True, True, 0)) \<and>
   map_option (map_sum (\<lambda>(e, s'). (e, Visited \<in> flags (s' 5), Joint \<in> flags (s' 1), counter (s' 1)))
       (\<lambda>_. ()))
     (transformations (@) [] example2 0 (2 # 3 # 5 # replicate 65531 2) [])
     = Some (Inl (TooLargeScene, True, True, 0xFFFE))"
proof -
  have "Suc (Suc (Suc 65531)) = (0xFFFE :: nat)" by simp
  from ex_walk_capacity[OF this] obtain s2 where
    so: "sceneObject (markJoints example2 (2 # 3 # 5 # replicate 65531 2) 0) (Some 0) = Some (Some 0)"
    and w: "walk 0 (markJoints example2 (2 # 3 # 5 # replicate 65531 2) 0)
                 (2 # 3 # 5 # replicate 65531 2) (2 # 3 # 5 # replicate 65531 2)
               = Some (Inl (TooLargeScene, s2))"
    and f: "Visited \<in> flags (s2 5)" "Joint \<in> flags (s2 1)" "counter (s2 1) = 0xFFFE"
    by blast
  have "transformations (@) [] example2 0 (2 # 3 # 5 # replicate 65531 2) []
           = Some (Inl (TooLargeScene, s2))"
    unfolding transformations_def Let_def so w by simp
  with f have c: "map_option (map_sum (\<lambda>(e, s'). (e, Visited \<in> flags (s' 5), Joint \<in> flags (s' 1),
        counter (s' 1))) (\<lambda>_. ()))
     (transformations (@) [] example2 0 (2 # 3 # 5 # replicate 65531 2) [])
     = Some (Inl (TooLargeScene, True, True, 0xFFFE))"
    by simp
  from ex_run3 have b: "map_option (map_sum (\<lambda>(e, s'). (e, Visited \<in> flags (s' 4),
        Joint \<in> flags (s' 4), counter (s' 4))) (\<lambda>_. ()))
     (transformations (@) [] example2 0 [4] []) = Some (Inl (NotSameTree, True, True, 0))"
    by auto
  have a: "map_option (map_sum (\<lambda>(e, s'). (e, Joint \<in> flags (s' 2), counter (s' 2))) (\<lambda>_. ()))
     (transformations (@) [] example2 1 [2] []) = Some (Inl (OnlyForScene, True, 0))"
    by (simp add: run_simps)
  from a b c example_unmarked show ?thesis by blast
qed

text \<open>
  Claim C4, as amended.  A batch query that starts without marks and returns its
  list hands back the store it was given: every \<open>Visited\<close> and \<open>Joint\<close> mark is gone
  and every counter is \<open>0xFFFF\<close> again.  A query that is refused for its number of
  targets has not touched the store.  And a query made on a scene without a parent,
  for at most \<open>0x7FFF\<close> targets that are the scene or below it, does return its list,
  with the store it was given.
\<close>

theorem transformations_restores:
  assumes "unmarked s"
  shows "(transformations compose dflt s this objects initial = Some (Inr (res, s', composed))
            \<longrightarrow> s' = s \<and> unmarked s') \<and>
         (\<not> length objects < 0xFFFF
            \<longrightarrow> transformations compose dflt s this objects initial = Some (Inl (TooLargeScene, s))) \<and>
         (isScene (s this) \<and> parent (s this) = None \<and>
          (\<forall>t\<in>set objects. ancestor_or_self s this t) \<and> 2 * length objects \<le> 0xFFFF \<longrightarrow>
            (\<exists>res composed.
               transformations compose dflt s this objects initial = Some (Inr (res, s, composed))))"
proof (intro conjI impI)
  assume "transformations compose dflt s this objects initial = Some (Inr (res, s', composed))"
  from transformations_Inr_restores[OF assms this] assms show "s' = s" "unmarked s'" by simp_all
next
  assume "\<not> length objects < 0xFFFF"
  then show "transformations compose dflt s this objects initial = Some (Inl (TooLargeScene, s))"
    by (simp add: transformations_def)
next
  assume "isScene (s this) \<and> parent (s this) = None \<and>
          (\<forall>t\<in>set objects. ancestor_or_self s this t) \<and> 2 * length objects \<le> 0xFFFF"
  then have w: "isScene (s this)" "parent (s this) = None"
    "\<forall>t\<in>set objects. ancestor_or_self s this t" "2 * length objects \<le> 0xFFFF"
    by simp_all
  from transformations_total[OF assms w, of compose dflt initial]
  obtain res t composed where
    r: "transformations compose dflt s this objects initial = Some (Inr (res, t, composed))"
    by blast
  from transformations_Inr_restores[OF assms r] r
  show "\<exists>res composed.
          transformations compose dflt s this objects initial = Some (Inr (res, s, composed))"
    by blast
qed

theorem transformations_restores_witness:
  "unmarked example2 \<and> isScene (example2 0) \<and> parent (example2 0) = None \<and>
   ancestor_or_self example2 0 2 \<and> ancestor_or_self example2 0 3 \<and>
   ancestor_or_self example2 0 5 \<and>
   transformations (@) [] example2 0 [2, 3, 5] []
     = Some (Inr ([[0, 1, 2], [0, 1, 3], [0, 5]], example2, [0, 1, 2, 3, 5])) \<and>
   transformations (@) [] example2 0 (replicate 65535 2) [] = Some (Inl (TooLargeScene, example2))"
proof -
  note th = transformations_restores[where s = example2 and this = 0 and compose = "(@)"
      and dflt = "[]" and initial = "[]", OF example_unmarked]
  note wf = example2_rooted
  have "\<forall>t\<in>set [2, 3, 5]. ancestor_or_self example2 0 t" using wf by simp
  with th[where objects = "[2, 3, 5]", THEN conjunct2, THEN conjunct2] wf
  obtain res composed where
    r: "transformations (@) [] example2 0 [2, 3, 5] [] = Some (Inr (res, example2, composed))"
    by auto
  with ex_run2 have a: "transformations (@) [] example2 0 [2, 3, 5] []
      = Some (Inr ([[0, 1, 2], [0, 1, 3], [0, 5]], example2, [0, 1, 2, 3, 5]))"
    by auto
  have b: "transformations (@) [] example2 0 (replicate 65535 2) []
      = Some (Inl (TooLargeScene, example2))"
    using th[where objects = "replicate 65535 2", THEN conjunct2, THEN conjunct1]
    by simp
  from a b example_unmarked wf show ?thesis by blast
qed

text \<open>
  Claim C5 as stated fails: with \<open>0xFFFE\<close> targets (objects 2 and 3, and 2 again
  \<open>65532\<close> times) the walk adds object 1 as the joint number \<open>0xFFFF\<close>, and the query
  succeeds.
\<close>

theorem joint_count_ceiling_counterexample:
  "map_option (map_sum fst (\<lambda>(s2, jointObjects). length jointObjects))
     (walk 0 (markJoints example2 (2 # 3 # replicate 65532 2) 0)
        (2 # 3 # replicate 65532 2) (2 # 3 # replicate 65532 2)) = Some (Inr 0xFFFF) \<and>
   map_option (map_sum fst (\<lambda>(res, s', composed). length res))
     (transformations (@) [] example2 0 (2 # 3 # replicate 65532 2) []) = Some (Inr 0xFFFE)"
proof -
  have m: "Suc (Suc 65532) < (0xFFFF :: nat)" by simp
  from ex_walk_full[OF m] obtain s2 where
    "walk 0 (markJoints example2 (2 # 3 # replicate 65532 2) 0)
        (2 # 3 # replicate 65532 2) (2 # 3 # replicate 65532 2)
      = Some (Inr (s2, (2 # 3 # replicate 65532 2) @ [1]))" by blast
  then have a: "map_option (map_sum fst (\<lambda>(s2, jointObjects). length jointObjects))
     (walk 0 (markJoints example2 (2 # 3 # replicate 65532 2) 0)
        (2 # 3 # replicate 65532 2) (2 # 3 # replicate 65532 2)) = Some (Inr 0xFFFF)"
    by simp
  from ex_success[OF m] obtain res s' composed where
    "transformations (@) [] example2 0 (2 # 3 # replicate 65532 2) []
       = Some (Inr (res, s', composed))" "length res = Suc (Suc 65532)" by blast
  then have "map_option (map_sum fst (\<lambda>(res, s', composed). length res))
     (transformations (@) [] example2 0 (2 # 3 # replicate 65532 2) []) = Some (Inr 0xFFFE)"
    by simp
  with a show ?thesis by blast
qed

text \<open>
  Claim C5, as amended.  A query with \<open>0xFFFF\<close> targets or more fails with the
  capacity error and leaves the store alone; the walk fails with it when it has to
  add a joint to a list that holds \<open>0xFFFF\<close> joints already, and the query then
  returns that error; a walk that succeeds ends with at most \<open>0xFFFF\<close> joints,
  each counter being the position of its joint in the list; and as long as the list
  holds fewer than \<open>0xFFFF\<close> joints the walk adds the joint, with the length of the
  list as its counter, and goes on.
\<close>

theorem capacity_error:
  "(\<not> length objects < 0xFFFF \<longrightarrow>
      transformations compose dflt s this objects initial = Some (Inl (TooLargeScene, s))) \<and>
   (Visited \<notin> flags (t it) \<and> parent (t it) = Some p \<and>
    Visited \<in> flags ((t(it := (t it)\<lparr>flags := insert Visited (flags (t it))\<rparr>)) p) \<and>
    Joint \<notin> flags (t p) \<and> \<not> length jointObjects < 0xFFFF \<longrightarrow>
      walk scene t (it # rest) jointObjects
        = Some (Inl (TooLargeScene, t(it := (t it)\<lparr>flags := insert Visited (flags (t it))\<rparr>)))) \<and>
   (length objects < 0xFFFF \<and> isScene (s this) \<and>
    walk this (markJoints s objects 0) objects objects = Some (Inl (TooLargeScene, s2)) \<longrightarrow>
      transformations compose dflt s this objects initial = Some (Inl (TooLargeScene, s2))) \<and>
   (unmarked s \<and> length objects < 0xFFFF \<and>
    walk this (markJoints s objects 0) objects objects = Some (Inr (s3, js)) \<longrightarrow>
      length js \<le> 0xFFFF \<and> indexed s3 js) \<and>
   (Visited \<notin> flags (t it) \<and> parent (t it) = Some p \<and>
    Visited \<in> flags ((t(it := (t it)\<lparr>flags := insert Visited (flags (t it))\<rparr>)) p) \<and>
    Joint \<notin> flags (t p) \<and> counter (t p) = 0xFFFF \<and> length jointObjects < 0xFFFF \<longrightarrow>
      walk scene t (it # rest) jointObjects
        = walk scene
            (promote (t(it := (t it)\<lparr>flags := insert Visited (flags (t it))\<rparr>)) p
               (length jointObjects))
            rest (jointObjects @ [p]))"
proof (intro conjI impI)
  assume "\<not> length objects < 0xFFFF"
  then show "transformations compose dflt s this objects initial = Some (Inl (TooLargeScene, s))"
    by (simp add: transformations_def)
next
  assume a: "Visited \<notin> flags (t it) \<and> parent (t it) = Some p \<and>
    Visited \<in> flags (visit t it p) \<and> Joint \<notin> flags (t p) \<and> \<not> length jointObjects < 0xFFFF"
  then have "Joint \<notin> flags (visit t it p)" by auto
  with a show "walk scene t (it # rest) jointObjects = Some (Inl (TooLargeScene, visit t it))"
    by (subst walk_Cons) (simp add: fun_upd_same del: fun_upd_apply)
next
  assume a: "length objects < 0xFFFF \<and> isScene (s this) \<and>
    walk this (markJoints s objects 0) objects objects = Some (Inl (TooLargeScene, s2))"
  then have "sceneObject (markJoints s objects 0) (Some this) = Some (Some this)"
    by (intro sceneObject_scene) (simp add: markJoints_isScene)
  with a show "transformations compose dflt s this objects initial = Some (Inl (TooLargeScene, s2))"
    by (simp add: transformations_def Let_def)
next
  assume a: "unmarked s \<and> length objects < 0xFFFF \<and>
    walk this (markJoints s objects 0) objects objects = Some (Inr (s3, js))"
  then show "length js \<le> 0xFFFF"
    using walk_length[of this "markJoints s objects 0" objects objects s3 js] by simp
next
  assume a: "unmarked s \<and> length objects < 0xFFFF \<and>
    walk this (markJoints s objects 0) objects objects = Some (Inr (s3, js))"
  then show "indexed s3 js"
    using walk_indexed[of this "markJoints s objects 0" objects objects s3 js]
      marked_props(2)[of s objects] by blast
next
  assume a: "Visited \<notin> flags (t it) \<and> parent (t it) = Some p \<and>
    Visited \<in> flags (visit t it p) \<and> Joint \<notin> flags (t p) \<and> counter (t p) = 0xFFFF \<and>
    length jointObjects < 0xFFFF"
  then have "Joint \<notin> flags (visit t it p)" "counter (visit t it p) = 0xFFFF" by auto
  with a show "walk scene t (it # rest) jointObjects
      = walk scene (promote (visit t it) p (length jointObjects)) rest (jointObjects @ [p])"
    by (subst walk_Cons) (simp add: fun_upd_same del: fun_upd_apply)
qed

theorem capacity_error_witness:
  "transformations (@) [] example2 0 (replicate 65535 0) [] = Some (Inl (TooLargeScene, example2)) \<and>
   walk 0 (example2(0 := (example2 0)\<lparr>flags := {Visited}\<rparr>)) [5] (replicate 65535 2)
     = Some (Inl (TooLargeScene,
          (example2(0 := (example2 0)\<lparr>flags := {Visited}\<rparr>))
            (5 := (example2 5)\<lparr>flags := {Visited}\<rparr>))) \<and>
   (\<exists>s2. transformations (@) [] example2 0 (2 # 3 # 5 # replicate 65531 2) []
           = Some (Inl (TooLargeScene, s2))) \<and>
   (\<exists>s3. walk 0 (markJoints example2 (2 # 3 # replicate 65532 2) 0)
            (2 # 3 # replicate 65532 2) (2 # 3 # replicate 65532 2)
          = Some (Inr (s3, (2 # 3 # replicate 65532 2) @ [1])) \<and>
        length ((2 # 3 # replicate 65532 2) @ [1 :: nat]) = 0xFFFF \<and>
        indexed s3 ((2 # 3 # replicate 65532 2) @ [1])) \<and>
   walk 0 (example2(0 := (example2 0)\<lparr>flags := {Visited}\<rparr>)) [5] (replicate 65534 2)
     = Some (Inr ((example2(0 := (example2 0)\<lparr>flags := {Visited}\<rparr>))
                    (5 := (example2 5)\<lparr>flags := {Visited}\<rparr>,
                     0 := (example2 0)\<lparr>counter := 0xFFFE, flags := {Joint, Visited}\<rparr>),
                  replicate 65534 2 @ [0]))"
proof -
  have a: "transformations (@) [] example2 0 (replicate 65535 0) []
             = Some (Inl (TooLargeScene, example2))"
    using capacity_error[where objects = "replicate 65535 0" and compose = "(@)" and dflt = "[]"
        and s = example2 and this = 0 and initial = "[]", THEN conjunct1]
    by simp
  let ?t = "example2(0 := (example2 0)\<lparr>flags := {Visited}\<rparr>)"
  have b: "walk 0 ?t [5] (replicate 65535 2)
     = Some (Inl (TooLargeScene, ?t(5 := (example2 5)\<lparr>flags := {Visited}\<rparr>)))"
    using capacity_error[where t = ?t and it = 5 and p = 0 and jointObjects = "replicate 65535 2"
        and scene = 0 and rest = "[]", THEN conjunct2, THEN conjunct1]
    by (simp add: example2_def blank_def)
  have "Suc (Suc (Suc 65531)) = (0xFFFE :: nat)" by simp
  from ex_walk_capacity[OF this] obtain s2 where
    w: "walk 0 (markJoints example2 (2 # 3 # 5 # replicate 65531 2) 0)
                 (2 # 3 # 5 # replicate 65531 2) (2 # 3 # 5 # replicate 65531 2)
               = Some (Inl (TooLargeScene, s2))" by blast
  have "length (2 # 3 # 5 # replicate 65531 (2::nat)) < 0xFFFF" by simp
  moreover have "isScene (example2 0)" by (simp add: example2_def blank_def)
  ultimately have c: "transformations (@) [] example2 0 (2 # 3 # 5 # replicate 65531 2) []
           = Some (Inl (TooLargeScene, s2))"
    using w capacity_error[where objects = "2 # 3 # 5 # replicate 65531 2" and compose = "(@)"
        and dflt = "[]" and s = example2 and this = 0 and initial = "[]" and ?s2.0 = s2,
        THEN conjunct2, THEN conjunct2, THEN conjunct1]
    by blast
  have m: "Suc (Suc 65532) < (0xFFFF :: nat)" by simp
  from ex_walk_full[OF m] obtain s3 where
    w3: "walk 0 (markJoints example2 (2 # 3 # replicate 65532 2) 0)
        (2 # 3 # replicate 65532 2) (2 # 3 # replicate 65532 2)
      = Some (Inr (s3, (2 # 3 # replicate 65532 2) @ [1]))" by blast
  have "length (2 # 3 # replicate 65532 (2::nat)) < 0xFFFF" by simp
  with w3 example_unmarked have "indexed s3 ((2 # 3 # replicate 65532 2) @ [1])"
    using capacity_error[where s = example2 and objects = "2 # 3 # replicate 65532 2"
        and this = 0 and ?s3.0 = s3 and js = "(2 # 3 # replicate 65532 2) @ [1]",
        THEN conjunct2, THEN conjunct2, THEN conjunct2, THEN conjunct1]
    by blast
  moreover have "length ((2 # 3 # replicate 65532 2) @ [1 :: nat]) = 0xFFFF" by simp
  moreover have "walk 0 ?t [5] (replicate 65534 2)
     = Some (Inr (?t(5 := (example2 5)\<lparr>flags := {Visited}\<rparr>,
                     0 := (example2 0)\<lparr>counter := 0xFFFE, flags := {Joint, Visited}\<rparr>),
                  replicate 65534 2 @ [0]))"
    using capacity_error[where t = ?t and it = 5 and p = 0 and jointObjects = "replicate 65534 2"
        and scene = 0 and rest = "[]",
        THEN conjunct2, THEN conjunct2, THEN conjunct2, THEN conjunct2]
    by (simp add: walk_Nil example2_def blank_def insert_commute)
  ultimately show ?thesis using a b c w3 by blast
qed

end
